theory Spec2Isabelle
  imports Main "HOL-Library.Monad_Syntax"
begin

section \<open>Common types\<close>

text \<open>
  A Go byte slice is a list of characters (a \<^typ>\<open>char\<close> is one byte).  A slice that may be
  \<^verbatim>\<open>nil\<close> and whose nil-ness is observed is an \<^typ>\<open>string option\<close>.
\<close>

type_synonym bytes = string

text \<open>Error values that travel through Go \<^verbatim>\<open>error\<close> returns.\<close>

datatype error =
    EOF  \<comment> \<open>\<^verbatim>\<open>io.EOF\<close>\<close>
  | UnexpectedState  \<comment> \<open>\<^verbatim>\<open>fmt.Errorf("JSON cursor in unexpected state. This is likely a bug")\<close>\<close>
  | OtherError string  \<comment> \<open>any error produced by a collaborator (node store, root value, scanner)\<close>

text \<open>Run-time panics: they unwind the caller instead of being returned.\<close>

datatype panic =
    NilDereference
  | IndexOutOfRange
  | SliceBoundsOutOfRange
  | PanicMessage string

datatype 'a result = Panic panic | Ret 'a

text \<open>
  A byte slice whose capacity is observed: \<open>elems\<close> are its \<^verbatim>\<open>len\<close> elements, \<open>spare\<close> is what
  its backing array holds between its length and its capacity.  A slice expression may reach
  into the spare part: Go checks \<^verbatim>\<open>0 <= low <= high <= cap\<close>, and an omitted \<^verbatim>\<open>high\<close> is the
  length.
\<close>

record slice =
  elems :: bytes
  spare :: bytes

text \<open>\<^verbatim>\<open>s[low:]\<close> and \<^verbatim>\<open>s[low:high]\<close>.\<close>

definition slice_from :: "slice \<Rightarrow> nat \<Rightarrow> bytes result" where
  "slice_from s low =
     (if length (elems s) < low then Panic SliceBoundsOutOfRange else Ret (drop low (elems s)))"

definition slice_range :: "slice \<Rightarrow> nat \<Rightarrow> nat \<Rightarrow> bytes result" where
  "slice_range s low high =
     (if high < low \<or> length (elems s) + length (spare s) < high then Panic SliceBoundsOutOfRange
      else Ret (take (high - low) (drop low (elems s @ spare s))))"

section \<open>Table hashes of a root value (package env)\<close>

text \<open>
  \<^verbatim>\<open>doltdb.RootValue\<close> is an external collaborator: only the two methods that
  \<^verbatim>\<open>mapTableHashes\<close> calls are represented.  \<^verbatim>\<open>GetTableHash\<close> returns the triple
  \<^verbatim>\<open>(h, ok, err)\<close>.
\<close>

type_synonym hash = bytes

record RootValue =
  GetTableNames :: "error + string list"
  GetTableHash :: "string \<Rightarrow> hash \<times> bool \<times> error option"

text \<open>
  The body of the \<^verbatim>\<open>for _, name := range names\<close> loop of \<^verbatim>\<open>mapTableHashes\<close>, with the map
  \<^verbatim>\<open>nameToHash\<close> as accumulator.  On an error the Go function returns a nil map, hence the sum.
\<close>

fun mapTableHashes_loop ::
  "RootValue \<Rightarrow> string list \<Rightarrow> (string \<rightharpoonup> hash) \<Rightarrow> (error + (string \<rightharpoonup> hash)) result" where
  "mapTableHashes_loop root [] nameToHash = Ret (Inr nameToHash)"
| "mapTableHashes_loop root (name # names) nameToHash =
     (case GetTableHash root name of (h, ok, err) \<Rightarrow>
        (case err of
           Some e \<Rightarrow> Ret (Inl e)
         | None \<Rightarrow>
             if \<not> ok then
               Panic (PanicMessage ''GetTableNames returned a table that GetTableHash says isn't there.'')
             else mapTableHashes_loop root names (nameToHash(name \<mapsto> h))))"

definition mapTableHashes :: "RootValue \<Rightarrow> (error + (string \<rightharpoonup> hash)) result" where
  "mapTableHashes root =
     (case GetTableNames root of
        Inl err \<Rightarrow> Ret (Inl err)
      | Inr names \<Rightarrow> mapTableHashes_loop root names Map.empty)"

text \<open>A root value whose only listed table is reported absent by \<^verbatim>\<open>GetTableHash\<close>.\<close>

definition mismatched_root :: RootValue where
  "mismatched_root =
     \<lparr>GetTableNames = Inr [''t''], GetTableHash = (\<lambda>name. ([], False, None))\<rparr>"

text \<open>
  A root value whose first table cannot be read and whose second is reported absent, and one
  whose table names cannot be listed.
\<close>

definition failing_root :: RootValue where
  "failing_root =
     \<lparr>GetTableNames = Inr [''s'', ''t''],
      GetTableHash = (\<lambda>name. if name = ''s'' then ([], False, Some (OtherError ''read failed''))
                             else ([], False, None))\<rparr>"

definition unlisted_root :: RootValue where
  "unlisted_root =
     \<lparr>GetTableNames = Inl (OtherError ''no table names''), GetTableHash = (\<lambda>name. ([], True, None))\<rparr>"

section \<open>Nodes, the node store and tree cursors\<close>

text \<open>
  Modelled from the spec: the \<^verbatim>\<open>Node\<close> type is not part of the sources at hand.  A node is an
  immutable ordered sequence of (key, value) entries with a flag telling leaves from internal
  nodes; the value of an internal entry is the reference of a child node.  A value is a byte
  slice.
\<close>

record Node =
  entries :: "(bytes \<times> slice) list"
  leaf :: bool

text \<open>
  The node store is an external capability: \<^verbatim>\<open>fetchChild(ctx, ns, ref)\<close> answers a node and an
  error.  It is a parameter of everything below.
\<close>

type_synonym NodeStore = "bytes \<Rightarrow> Node \<times> error option"

text \<open>
  Modelled from the spec: the \<^verbatim>\<open>cursor\<close> struct is not part of the sources at hand.  The fields
  \<^verbatim>\<open>nd\<close> and \<^verbatim>\<open>parent\<close> are the ones \<^verbatim>\<open>json_cursor.go\<close> reads and writes, \<^verbatim>\<open>idx\<close> is the
  entry index of the specification.  The field \<^verbatim>\<open>nrw\<close> (the node store) is the parameter above.
  \<^verbatim>\<open>parent\<close> is a pointer: \<open>None\<close> is \<^verbatim>\<open>nil\<close>, \<open>Some a\<close> is the address of a cursor object.
\<close>

record cursor =
  nd :: Node
  idx :: int
  parent :: "nat option"

text \<open>
  Cursor objects live in a store; the address of an object is its position.  Allocation appends,
  assignment to a field is a list update.
\<close>

type_synonym heap = "cursor list"

definition cell :: "heap \<Rightarrow> nat \<Rightarrow> cursor option" where
  "cell h a = (if a < length h then Some (h ! a) else None)"

text \<open>Following a pointer: \<^verbatim>\<open>nil\<close> (or an address that holds no object) panics.\<close>

definition deref :: "heap \<Rightarrow> nat option \<Rightarrow> cursor result" where
  "deref h p =
     (case p of
        None \<Rightarrow> Panic NilDereference
      | Some a \<Rightarrow> (case cell h a of None \<Rightarrow> Panic NilDereference | Some c \<Rightarrow> Ret c))"

definition count :: "Node \<Rightarrow> int" where
  "count n = int (length (entries n))"

text \<open>
  Modelled from the spec: \<^verbatim>\<open>cursor.Valid\<close> is not part of the sources at hand.  A cursor is valid
  iff its index lies within the entry count of its node.
\<close>

definition Valid :: "cursor \<Rightarrow> bool" where
  "Valid c = (0 \<le> idx c \<and> idx c < count (nd c))"

text \<open>
  Modelled from the spec: the read accessors \<^verbatim>\<open>CurrentKey\<close>, \<^verbatim>\<open>currentValue\<close> and
  \<^verbatim>\<open>currentRef\<close> are not part of the sources at hand.  They read the entry at the index and
  fail on an invalid cursor.
\<close>

definition CurrentKey :: "cursor \<Rightarrow> bytes result" where
  "CurrentKey c =
     (if Valid c then Ret (fst (entries (nd c) ! nat (idx c))) else Panic IndexOutOfRange)"

definition currentValue :: "cursor \<Rightarrow> slice result" where
  "currentValue c =
     (if Valid c then Ret (snd (entries (nd c) ! nat (idx c))) else Panic IndexOutOfRange)"

definition currentRef :: "cursor \<Rightarrow> bytes result" where
  "currentRef c =
     (if Valid c then Ret (elems (snd (entries (nd c) ! nat (idx c)))) else Panic IndexOutOfRange)"

text \<open>
  Modelled from the spec: \<^verbatim>\<open>cursor.clone\<close> is not part of the sources at hand.  It deep-copies
  the position: node, index and the recursively cloned parent chain; every copy is a new
  object.  A parent chain that runs in a circle makes the recursion run forever (\<open>None\<close>).
\<close>

partial_function (option) clone :: "heap \<Rightarrow> nat \<Rightarrow> (heap \<times> nat) result option" where
  "clone h a =
     (case cell h a of
        None \<Rightarrow> Some (Panic NilDereference)
      | Some c \<Rightarrow>
          (case parent c of
             None \<Rightarrow> Some (Ret (h @ [c], length h))
           | Some p \<Rightarrow>
               do {
                 r \<leftarrow> clone h p;
                 case r of
                   Panic x \<Rightarrow> Some (Panic x)
                 | Ret (h1, p') \<Rightarrow> Some (Ret (h1 @ [c\<lparr>parent := Some p'\<rparr>], length h1))
               }))"

text \<open>
  Modelled from the spec: descending into the child that the parent's current entry references.
  The cursor at \<open>a\<close> takes the fetched node and the index \<open>pos\<close> of it (first entry when
  advancing, last entry when retreating).  A fetch error is propagated.
\<close>

definition fetchNode ::
  "NodeStore \<Rightarrow> heap \<Rightarrow> nat \<Rightarrow> nat \<Rightarrow> (Node \<Rightarrow> int) \<Rightarrow> (heap \<times> error option) result" where
  "fetchNode ns h a p pos =
     (case deref h (Some p) of
        Panic x \<Rightarrow> Panic x
      | Ret pc \<Rightarrow>
          (case currentRef pc of
             Panic x \<Rightarrow> Panic x
           | Ret r \<Rightarrow>
               (case ns r of
                  (n, Some e) \<Rightarrow> Ret (h, Some e)
                | (n, None) \<Rightarrow> Ret (h[a := (h ! a)\<lparr>nd := n, idx := pos n\<rparr>], None))))"

text \<open>
  Modelled from the spec: \<^verbatim>\<open>cursor.retreat\<close> is not part of the sources at hand.  It is the
  predecessor operation symmetric to \<^verbatim>\<open>advance\<close>: move to the previous entry of the current
  node; at the first entry, retreat the parent recursively and descend into the last entry of
  the new sibling; when the parent is exhausted too (or there is none) the cursor becomes
  invalid, before the start.
\<close>

partial_function (option) retreat ::
  "NodeStore \<Rightarrow> heap \<Rightarrow> nat \<Rightarrow> (heap \<times> error option) result option" where
  "retreat ns h a =
     (case cell h a of
        None \<Rightarrow> Some (Panic NilDereference)
      | Some c \<Rightarrow>
          if 0 < idx c then Some (Ret (h[a := c\<lparr>idx := idx c - 1\<rparr>], None))
          else
            (case parent c of
               None \<Rightarrow> Some (Ret (h[a := c\<lparr>idx := - 1\<rparr>], None))
             | Some p \<Rightarrow>
                 do {
                   r \<leftarrow> retreat ns h p;
                   case r of
                     Panic x \<Rightarrow> Some (Panic x)
                   | Ret (h1, Some e) \<Rightarrow> Some (Ret (h1, Some e))
                   | Ret (h1, None) \<Rightarrow>
                       (case deref h1 (Some p) of
                          Panic x \<Rightarrow> Some (Panic x)
                        | Ret pc \<Rightarrow>
                            if \<not> Valid pc then
                              Some (Ret (h1[a := (h1 ! a)\<lparr>idx := - 1\<rparr>], None))
                            else Some (fetchNode ns h1 a p (\<lambda>n. count n - 1)))
                 }))"

text \<open>
  Modelled from the spec: \<^verbatim>\<open>cursor.advance\<close> is not part of the sources at hand.  Move to the
  next entry of the current node; when the node is exhausted, advance the parent recursively and
  descend into the first entry of the new sibling; when the parent is exhausted too (or there is
  none) the cursor becomes invalid, past the end.  That is a terminal state, not an error.
\<close>

partial_function (option) advance ::
  "NodeStore \<Rightarrow> heap \<Rightarrow> nat \<Rightarrow> (heap \<times> error option) result option" where
  "advance ns h a =
     (case cell h a of
        None \<Rightarrow> Some (Panic NilDereference)
      | Some c \<Rightarrow>
          if idx c < count (nd c) - 1 then Some (Ret (h[a := c\<lparr>idx := idx c + 1\<rparr>], None))
          else
            (case parent c of
               None \<Rightarrow> Some (Ret (h[a := c\<lparr>idx := count (nd c)\<rparr>], None))
             | Some p \<Rightarrow>
                 do {
                   r \<leftarrow> advance ns h p;
                   case r of
                     Panic x \<Rightarrow> Some (Panic x)
                   | Ret (h1, Some e) \<Rightarrow> Some (Ret (h1, Some e))
                   | Ret (h1, None) \<Rightarrow>
                       (case deref h1 (Some p) of
                          Panic x \<Rightarrow> Some (Panic x)
                        | Ret pc \<Rightarrow>
                            if \<not> Valid pc then
                              Some (Ret (h1[a := (h1 ! a)\<lparr>idx := count (nd (h1 ! a))\<rparr>], None))
                            else Some (fetchNode ns h1 a p (\<lambda>n. 0)))
                 }))"

declare clone.simps [code] retreat.simps [code] advance.simps [code]

text \<open>
  A parent chain that starts at \<open>a\<close>, ends in \<^verbatim>\<open>nil\<close> after at most \<open>n\<close> objects and lies at
  addresses from \<open>lo\<close> on.
\<close>

fun chain_from :: "nat \<Rightarrow> nat \<Rightarrow> heap \<Rightarrow> nat \<Rightarrow> bool" where
  "chain_from lo 0 h a = False"
| "chain_from lo (Suc n) h a =
     (lo \<le> a \<and>
      (case cell h a of
         None \<Rightarrow> False
       | Some c \<Rightarrow> (case parent c of None \<Rightarrow> True | Some p \<Rightarrow> chain_from lo n h p)))"

text \<open>Every cursor of the chain is at index 0: the position is the first entry of the whole tree.\<close>

fun at_tree_start :: "nat \<Rightarrow> heap \<Rightarrow> nat \<Rightarrow> bool" where
  "at_tree_start 0 h a = False"
| "at_tree_start (Suc n) h a =
     (case cell h a of
        None \<Rightarrow> False
      | Some c \<Rightarrow>
          idx c = 0 \<and> (case parent c of None \<Rightarrow> True | Some p \<Rightarrow> at_tree_start n h p))"

text \<open>Every cursor of the chain is valid.\<close>

fun chain_valid :: "nat \<Rightarrow> heap \<Rightarrow> nat \<Rightarrow> bool" where
  "chain_valid 0 h a = False"
| "chain_valid (Suc n) h a =
     (case cell h a of
        None \<Rightarrow> False
      | Some c \<Rightarrow> Valid c \<and> (case parent c of None \<Rightarrow> True | Some p \<Rightarrow> chain_valid n h p))"

text \<open>The addresses of the cursor objects on the parent chain of \<open>a\<close>, leaf first.\<close>

fun chain_addrs :: "nat \<Rightarrow> heap \<Rightarrow> nat \<Rightarrow> nat list" where
  "chain_addrs 0 h a = []"
| "chain_addrs (Suc n) h a =
     (case cell h a of
        None \<Rightarrow> []
      | Some c \<Rightarrow> a # (case parent c of None \<Rightarrow> [] | Some p \<Rightarrow> chain_addrs n h p))"

text \<open>
  The positions (node, index) along the parent chain of \<open>a\<close>, leaf first: what the chain
  holds, apart from the addresses of its objects.
\<close>

fun levels :: "nat \<Rightarrow> heap \<Rightarrow> nat \<Rightarrow> (Node \<times> int) list" where
  "levels 0 h a = []"
| "levels (Suc n) h a =
     (case cell h a of
        None \<Rightarrow> []
      | Some c \<Rightarrow> (nd c, idx c) # (case parent c of None \<Rightarrow> [] | Some p \<Rightarrow> levels n h p))"

text \<open>
  Modelled from the spec: the predecessor operation of the specification, on the list of
  positions of a cursor chain.  It is what \<^verbatim>\<open>cursor.retreat\<close> above computes on every chain that
  ends in \<^verbatim>\<open>nil\<close>, whatever the addresses of the objects are.
\<close>

fun retreat_levels ::
  "NodeStore \<Rightarrow> (Node \<times> int) list \<Rightarrow> ((Node \<times> int) list \<times> error option) result" where
  "retreat_levels ns [] = Panic NilDereference"
| "retreat_levels ns ((n, i) # ps) =
     (if 0 < i then Ret ((n, i - 1) # ps, None)
      else if ps = [] then Ret ([(n, - 1)], None)
      else
        (case retreat_levels ns ps of
           Panic x \<Rightarrow> Panic x
         | Ret (ps', Some e) \<Rightarrow> Ret ((n, i) # ps', Some e)
         | Ret (ps', None) \<Rightarrow>
             (case ps' of
                [] \<Rightarrow> Panic NilDereference
              | (pn, pi) # _ \<Rightarrow>
                  if \<not> (0 \<le> pi \<and> pi < count pn) then Ret ((n, - 1) # ps', None)
                  else
                    (case ns (elems (snd (entries pn ! nat pi))) of
                       (m, Some e) \<Rightarrow> Ret ((n, i) # ps', Some e)
                     | (m, None) \<Rightarrow> Ret ((m, count m - 1) # ps', None)))))"

section \<open>The JSON scanner and the other collaborators of the JSON cursor\<close>

text \<open>
  The fields of \<^verbatim>\<open>JsonScanner\<close> that \<^verbatim>\<open>json_cursor.go\<close> reads.  The type of locations
  (\<^verbatim>\<open>jsonLocation\<close>) is a parameter; locations are values.  Offsets are never negative.
\<close>

record 'loc JsonScanner =
  jsonBuffer :: slice
  currentPath :: 'loc
  valueOffset :: nat

text \<open>
  Functions that \<^verbatim>\<open>json_cursor.go\<close> calls and that are not part of the sources at hand are
  parameters: the node store, \<^verbatim>\<open>Seek\<close> (it repositions the cursor chain it is given, in place),
  the ordering \<^verbatim>\<open>compareJsonLocations\<close>, the field \<^verbatim>\<open>key\<close> of a location, the path that a
  key encodes, and the scanner's methods \<^verbatim>\<open>atStartOfValue\<close> and \<^verbatim>\<open>AdvanceToNextLocation\<close>
  (here \<open>scanToNextLocation\<close>: the scanner after the call and the error it returned).
\<close>

record 'loc deps =
  fetchChild :: NodeStore
  Seek :: "heap \<Rightarrow> nat option \<Rightarrow> bytes \<Rightarrow> (heap \<times> error option) result"
  compareJsonLocations :: "'loc \<Rightarrow> 'loc \<Rightarrow> int"
  key :: "'loc \<Rightarrow> bytes"
  jsonPathFromKey :: "bytes option \<Rightarrow> 'loc"
  atStartOfValue :: "'loc JsonScanner \<Rightarrow> bool"
  scanToNextLocation :: "'loc JsonScanner \<Rightarrow> 'loc JsonScanner \<times> error option"

text \<open>
  Modelled from the spec: \<^verbatim>\<open>ScanJsonFromMiddle\<close> and \<^verbatim>\<open>ScanJsonFromMiddleWithKey\<close> are not part
  of the sources at hand.  They build a scanner over the given buffer whose byte offset starts
  at 0 and whose initial path is the given one, respectively the one derived from the key.
\<close>

definition ScanJsonFromMiddle :: "slice \<Rightarrow> 'loc \<Rightarrow> 'loc JsonScanner" where
  "ScanJsonFromMiddle buf path = \<lparr>jsonBuffer = buf, currentPath = path, valueOffset = 0\<rparr>"

definition ScanJsonFromMiddleWithKey ::
  "'loc deps \<Rightarrow> slice \<Rightarrow> bytes option \<Rightarrow> 'loc JsonScanner" where
  "ScanJsonFromMiddleWithKey d buf previousKey =
     ScanJsonFromMiddle buf (jsonPathFromKey d previousKey)"

section \<open>The JSON cursor (\<^verbatim>\<open>json_cursor.go\<close>)\<close>

text \<open>\<^verbatim>\<open>cur\<close> is a pointer to a cursor object, \<^verbatim>\<open>jsonScanner\<close> is held by value.\<close>

record 'loc JsonCursor =
  cur :: nat
  jsonScanner :: "'loc JsonScanner"

text \<open>
  \<^verbatim>\<open>getPreviousKey\<close>: clone the cursor, retreat the clone, and answer the current key of the
  clone's parent when the clone is valid, \<^verbatim>\<open>nil\<close> otherwise.  The store after the call is part
  of the result.
\<close>

definition getPreviousKey ::
  "NodeStore \<Rightarrow> heap \<Rightarrow> nat \<Rightarrow> (heap \<times> bytes option \<times> error option) result option" where
  "getPreviousKey ns h c =
     do {
       r \<leftarrow> clone h c;
       case r of
         Panic x \<Rightarrow> Some (Panic x)
       | Ret (h1, cur2) \<Rightarrow>
           do {
             r2 \<leftarrow> retreat ns h1 cur2;
             case r2 of
               Panic x \<Rightarrow> Some (Panic x)
             | Ret (h2, Some err) \<Rightarrow> Some (Ret (h2, None, Some err))
             | Ret (h2, None) \<Rightarrow>
                 (case deref h2 (Some cur2) of
                    Panic x \<Rightarrow> Some (Panic x)
                  | Ret c2 \<Rightarrow>
                      if Valid c2 then
                        (case deref h2 (parent c2) of
                           Panic x \<Rightarrow> Some (Panic x)
                         | Ret pc \<Rightarrow>
                             (case CurrentKey pc of
                                Panic x \<Rightarrow> Some (Panic x)
                              | Ret k \<Rightarrow> Some (Ret (h2, Some k, None))))
                      else Some (Ret (h2, None, None)))
           }
     }"

text \<open>\<^verbatim>\<open>func (j JsonCursor) Valid() bool\<close>.\<close>

definition JsonCursor_Valid :: "heap \<Rightarrow> 'loc JsonCursor \<Rightarrow> bool result" where
  "JsonCursor_Valid h j =
     (case deref h (Some (cur j)) of Panic x \<Rightarrow> Panic x | Ret c \<Rightarrow> Ret (Valid c))"

text \<open>
  \<^verbatim>\<open>AdvanceToNextLocation\<close> is a \<^verbatim>\<open>for\<close> loop; the named result \<^verbatim>\<open>crossedBoundary\<close> is the
  accumulator of the recursion and starts as \<^verbatim>\<open>false\<close>.
\<close>

partial_function (option) AdvanceToNextLocation_loop ::
  "'loc deps \<Rightarrow> bool \<Rightarrow> heap \<Rightarrow> 'loc JsonCursor \<Rightarrow>
     (heap \<times> 'loc JsonCursor \<times> bool \<times> error option) result option" where
  "AdvanceToNextLocation_loop d crossedBoundary h j =
     (case scanToNextLocation d (jsonScanner j) of
        (s, err) \<Rightarrow>
          if err = Some EOF then
            do {
              r \<leftarrow> advance (fetchChild d) h (cur j);
              case r of
                Panic x \<Rightarrow> Some (Panic x)
              | Ret (h1, err1) \<Rightarrow>
                  if err1 \<noteq> None then Some (Ret (h1, j\<lparr>jsonScanner := s\<rparr>, True, err1))
                  else
                    (case deref h1 (Some (cur j)) of
                       Panic x \<Rightarrow> Some (Panic x)
                     | Ret c \<Rightarrow>
                         if \<not> Valid c then
                           Some (Ret (h1, j\<lparr>jsonScanner := s\<rparr>, True, Some EOF))
                         else
                           (case currentValue c of
                              Panic x \<Rightarrow> Some (Panic x)
                            | Ret v \<Rightarrow>
                                AdvanceToNextLocation_loop d True h1
                                  (j\<lparr>jsonScanner := ScanJsonFromMiddle v (currentPath s)\<rparr>)))
            }
          else if err \<noteq> None then Some (Ret (h, j\<lparr>jsonScanner := s\<rparr>, crossedBoundary, err))
          else Some (Ret (h, j\<lparr>jsonScanner := s\<rparr>, crossedBoundary, None)))"

definition AdvanceToNextLocation ::
  "'loc deps \<Rightarrow> heap \<Rightarrow> 'loc JsonCursor \<Rightarrow>
     (heap \<times> 'loc JsonCursor \<times> bool \<times> error option) result option" where
  "AdvanceToNextLocation d h j = AdvanceToNextLocation_loop d False h j"

text \<open>
  The closure \<^verbatim>\<open>parseChunk\<close> of \<^verbatim>\<open>NextValue\<close>, with the variables it captures
  (\<^verbatim>\<open>result\<close>, \<^verbatim>\<open>jsonBuffer\<close>, \<^verbatim>\<open>startPos\<close>, \<^verbatim>\<open>err\<close>) passed in and out.  A slice expression
  panics when its bounds are out of range.
\<close>

definition parseChunk ::
  "'loc deps \<Rightarrow> heap \<Rightarrow> 'loc JsonCursor \<Rightarrow> bytes \<Rightarrow> slice \<Rightarrow> nat \<Rightarrow>
     (heap \<times> 'loc JsonCursor \<times> bytes \<times> slice \<times> nat \<times> error option) result option" where
  "parseChunk d h j result jsonBuf startPos =
     do {
       r \<leftarrow> AdvanceToNextLocation d h j;
       case r of
         Panic x \<Rightarrow> Some (Panic x)
       | Ret (h1, j1, crossedBoundary, err) \<Rightarrow>
           if err \<noteq> None then Some (Ret (h1, j1, result, jsonBuf, startPos, err))
           else if crossedBoundary then
             (case slice_from jsonBuf startPos of
                Panic x \<Rightarrow> Some (Panic x)
              | Ret bs \<Rightarrow> Some (Ret (h1, j1, result @ bs, jsonBuffer (jsonScanner j1), 0, None)))
           else Some (Ret (h1, j1, result, jsonBuf, startPos, None))
     }"

text \<open>The \<^verbatim>\<open>for compareJsonLocations(j.jsonScanner.currentPath, path) < 0\<close> loop and what follows it.\<close>

partial_function (option) NextValue_loop ::
  "'loc deps \<Rightarrow> 'loc \<Rightarrow> heap \<Rightarrow> 'loc JsonCursor \<Rightarrow> bytes \<Rightarrow> slice \<Rightarrow> nat \<Rightarrow>
     (heap \<times> 'loc JsonCursor \<times> bytes \<times> error option) result option" where
  "NextValue_loop d path h j result jsonBuf startPos =
     (if compareJsonLocations d (currentPath (jsonScanner j)) path < 0 then
        do {
          r \<leftarrow> parseChunk d h j result jsonBuf startPos;
          case r of
            Panic x \<Rightarrow> Some (Panic x)
          | Ret (h1, j1, result1, jsonBuf1, startPos1, err) \<Rightarrow>
              if err \<noteq> None then Some (Ret (h1, j1, result1, err))
              else NextValue_loop d path h1 j1 result1 jsonBuf1 startPos1
        }
      else
        (case slice_range jsonBuf startPos (valueOffset (jsonScanner j)) of
           Panic x \<Rightarrow> Some (Panic x)
         | Ret bs \<Rightarrow> Some (Ret (h, j, result @ bs, None))))"

text \<open>
  \<^verbatim>\<open>NextValue\<close> answers the named results \<^verbatim>\<open>(result, err)\<close>; the store and the cursor after the
  call come with them.
\<close>

definition NextValue ::
  "'loc deps \<Rightarrow> heap \<Rightarrow> 'loc JsonCursor \<Rightarrow>
     (heap \<times> 'loc JsonCursor \<times> bytes \<times> error option) result option" where
  "NextValue d h j =
     (if \<not> atStartOfValue d (jsonScanner j) then Some (Ret (h, j, [], Some UnexpectedState))
      else
        do {
          r \<leftarrow> parseChunk d h j [] (jsonBuffer (jsonScanner j)) (valueOffset (jsonScanner j));
          case r of
            Panic x \<Rightarrow> Some (Panic x)
          | Ret (h1, j1, result1, jsonBuf1, startPos1, err) \<Rightarrow>
              if err \<noteq> None then Some (Ret (h1, j1, result1, err))
              else NextValue_loop d (currentPath (jsonScanner j)) h1 j1 result1 jsonBuf1 startPos1
        })"

text \<open>
  The branch of \<^verbatim>\<open>AdvanceToLocation\<close> taken at the end of a chunk: seek the parent cursor to
  the key of the target, fetch the child it references into \<^verbatim>\<open>j.cur.nd\<close>, compute the previous
  key and build a new scanner over the current value.
\<close>

definition reloadChunk ::
  "'loc deps \<Rightarrow> heap \<Rightarrow> 'loc JsonCursor \<Rightarrow> 'loc \<Rightarrow>
     (heap \<times> 'loc JsonCursor \<times> error option) result option" where
  "reloadChunk d h j path =
     (case deref h (Some (cur j)) of
        Panic x \<Rightarrow> Some (Panic x)
      | Ret c \<Rightarrow>
          (case Seek d h (parent c) (key d path) of
             Panic x \<Rightarrow> Some (Panic x)
           | Ret (h1, Some e) \<Rightarrow> Some (Ret (h1, j, Some e))
           | Ret (h1, None) \<Rightarrow>
               (case deref h1 (Some (cur j)) of
                  Panic x \<Rightarrow> Some (Panic x)
                | Ret c1 \<Rightarrow>
                    (case deref h1 (parent c1) of
                       Panic x \<Rightarrow> Some (Panic x)
                     | Ret pc \<Rightarrow>
                         (case currentRef pc of
                            Panic x \<Rightarrow> Some (Panic x)
                          | Ret r \<Rightarrow>
                              (case fetchChild d r of
                                 (n, Some e) \<Rightarrow> Some (Ret (h1[cur j := c1\<lparr>nd := n\<rparr>], j, Some e))
                               | (n, None) \<Rightarrow>
                                   do {
                                     g \<leftarrow> getPreviousKey (fetchChild d) (h1[cur j := c1\<lparr>nd := n\<rparr>]) (cur j);
                                     case g of
                                       Panic x \<Rightarrow> Some (Panic x)
                                     | Ret (h3, previousKey, Some e) \<Rightarrow> Some (Ret (h3, j, Some e))
                                     | Ret (h3, previousKey, None) \<Rightarrow>
                                         (case deref h3 (Some (cur j)) of
                                            Panic x \<Rightarrow> Some (Panic x)
                                          | Ret c3 \<Rightarrow>
                                              (case currentValue c3 of
                                                 Panic x \<Rightarrow> Some (Panic x)
                                               | Ret v \<Rightarrow>
                                                   Some (Ret (h3,
                                                     j\<lparr>jsonScanner :=
                                                         ScanJsonFromMiddleWithKey d v previousKey\<rparr>,
                                                     None))))
                                   }))))))"

partial_function (option) AdvanceToLocation ::
  "'loc deps \<Rightarrow> heap \<Rightarrow> 'loc JsonCursor \<Rightarrow> 'loc \<Rightarrow>
     (heap \<times> 'loc JsonCursor \<times> error option) result option" where
  "AdvanceToLocation d h j path =
     (if compareJsonLocations d (currentPath (jsonScanner j)) path < 0 then
        (case scanToNextLocation d (jsonScanner j) of
           (s, err) \<Rightarrow>
             if err = Some EOF then
               do {
                 r \<leftarrow> reloadChunk d h (j\<lparr>jsonScanner := s\<rparr>) path;
                 case r of
                   Panic x \<Rightarrow> Some (Panic x)
                 | Ret (h1, j1, err1) \<Rightarrow>
                     if err1 \<noteq> None then Some (Ret (h1, j1, err1))
                     else AdvanceToLocation d h1 j1 path
               }
             else if err \<noteq> None then Some (Ret (h, j\<lparr>jsonScanner := s\<rparr>, err))
             else AdvanceToLocation d h (j\<lparr>jsonScanner := s\<rparr>) path)
      else Some (Ret (h, j, None)))"

declare AdvanceToNextLocation_loop.simps [code] NextValue_loop.simps [code]
  AdvanceToLocation.simps [code]

section \<open>Runs of the JSON cursor and the bytes of the document\<close>





text \<open>
  The tree cursor at address \<open>a\<close> is advanced \<open>m\<close> times, each time onto a valid entry: the values
  of the entries it reaches, in order, and the store afterwards.
\<close>

fun next_chunks :: "NodeStore \<Rightarrow> nat \<Rightarrow> heap \<Rightarrow> nat \<Rightarrow> (slice list \<times> heap) option" where
  "next_chunks ns 0 h a = Some ([], h)"
| "next_chunks ns (Suc m) h a =
     (case advance ns h a of
        None \<Rightarrow> None
      | Some (Panic x) \<Rightarrow> None
      | Some (Ret (h1, err)) \<Rightarrow>
          if err \<noteq> None then None
          else
            (case deref h1 (Some a) of
               Panic x \<Rightarrow> None
             | Ret c \<Rightarrow>
                 if \<not> Valid c then None
                 else
                   (case currentValue c of
                      Panic x \<Rightarrow> None
                    | Ret v \<Rightarrow> map_option (\<lambda>(vs, h2). (v # vs, h2)) (next_chunks ns m h1 a))))"



section \<open>A small tree and a byte-wise scanner\<close>

text \<open>
  Concrete values for the parameters, used to run the definitions: a scanner that takes one
  byte per step and whose location is the byte it has just passed, locations ordered as bytes,
  and a two-level tree whose leaves hold the chunks \<open>''ab''\<close> and \<open>''cz''\<close>.  \<open>whole bs\<close> is a
  slice that fills its backing array.
\<close>

definition whole :: "bytes \<Rightarrow> slice" where
  "whole bs = \<lparr>elems = bs, spare = []\<rparr>"

definition byte_scan :: "char JsonScanner \<Rightarrow> char JsonScanner \<times> error option" where
  "byte_scan s =
     (if length (elems (jsonBuffer s)) \<le> valueOffset s then (s, Some EOF)
      else (s\<lparr>currentPath := elems (jsonBuffer s) ! valueOffset s,
              valueOffset := Suc (valueOffset s)\<rparr>, None))"

definition leafA :: Node where
  "leafA = \<lparr>entries = [(''b'', whole ''ab'')], leaf = True\<rparr>"

definition leafB :: Node where
  "leafB = \<lparr>entries = [(''z'', whole ''cz'')], leaf = True\<rparr>"

definition rootN :: Node where
  "rootN = \<lparr>entries = [(''b'', whole ''A''), (''z'', whole ''B'')], leaf = False\<rparr>"

text \<open>A second tree: a leaf with two entries under a root with one.\<close>

definition leaf2 :: Node where
  "leaf2 = \<lparr>entries = [(''a'', whole ''xx''), (''b'', whole ''yy'')], leaf = True\<rparr>"


definition emptyN :: Node where
  "emptyN = \<lparr>entries = [], leaf = True\<rparr>"

text \<open>The node store holds the three leaves; any other reference is an error.\<close>

definition store :: NodeStore where
  "store r =
     (if r = ''A'' then (leafA, None)
      else if r = ''B'' then (leafB, None)
      else if r = ''L'' then (leaf2, None)
      else (emptyN, Some (OtherError ''not found'')))"

definition byte_deps :: "char deps" where
  "byte_deps =
     \<lparr>fetchChild = store,
      Seek = (\<lambda>h p k. Ret (h, None)),
      compareJsonLocations = (\<lambda>a b. int (of_char a) - int (of_char b)),
      key = (\<lambda>c. [c]),
      jsonPathFromKey = (\<lambda>k. case k of None \<Rightarrow> CHR 0x00 | Some k \<Rightarrow> last k),
      atStartOfValue = (\<lambda>s. valueOffset s < length (elems (jsonBuffer s))),
      scanToNextLocation = byte_scan\<rparr>"

text \<open>The root cursor at address 0 and a leaf cursor at address 1, on the first leaf.\<close>

definition heap_first :: heap where
  "heap_first =
     [\<lparr>nd = rootN, idx = 0, parent = None\<rparr>, \<lparr>nd = leafA, idx = 0, parent = Some 0\<rparr>]"

text \<open>The same cursors on the second (last) leaf.\<close>

definition heap_last :: heap where
  "heap_last =
     [\<lparr>nd = rootN, idx = 1, parent = None\<rparr>, \<lparr>nd = leafB, idx = 0, parent = Some 0\<rparr>]"

text \<open>Both cursors past the end: the tree is exhausted.\<close>

definition heap_end :: heap where
  "heap_end =
     [\<lparr>nd = rootN, idx = 2, parent = None\<rparr>, \<lparr>nd = leafB, idx = 1, parent = Some 0\<rparr>]"

text \<open>A seek for the byte-wise instance: the first entry whose key does not sort before \<open>k\<close>.\<close>

definition byte_Seek :: "heap \<Rightarrow> nat option \<Rightarrow> bytes \<Rightarrow> (heap \<times> error option) result" where
  "byte_Seek h p k =
     (case p of
        None \<Rightarrow> Panic NilDereference
      | Some a \<Rightarrow>
          (case cell h a of
             None \<Rightarrow> Panic NilDereference
           | Some c \<Rightarrow>
               Ret (h[a := c\<lparr>idx := int (length (takeWhile
                      (\<lambda>e. (of_char (last (fst e)) :: nat) < of_char (last k)) (entries (nd c))))\<rparr>],
                    None)))"

definition seek_deps :: "char deps" where
  "seek_deps = byte_deps\<lparr>Seek := byte_Seek\<rparr>"

text \<open>JSON cursors over the first chunk (captured locations \<open>m\<close> and \<open>~\<close>) and at the end of either chunk.\<close>

definition cursor_ab :: "char JsonCursor" where
  "cursor_ab =
     \<lparr>cur = 1, jsonScanner = \<lparr>jsonBuffer = whole ''ab'', currentPath = CHR ''m'', valueOffset = 0\<rparr>\<rparr>"


definition cursor_cz_end :: "char JsonCursor" where
  "cursor_cz_end =
     \<lparr>cur = 1, jsonScanner = \<lparr>jsonBuffer = whole ''cz'', currentPath = CHR ''z'', valueOffset = 2\<rparr>\<rparr>"


definition heap_single_leaf :: heap where
  "heap_single_leaf = [\<lparr>nd = leaf2, idx = 1, parent = None\<rparr>]"


text \<open>The first leaf's cursor after one scanner step, and at the end of its chunk.\<close>

definition cursor_a :: "char JsonCursor" where
  "cursor_a =
     \<lparr>cur = 1, jsonScanner = \<lparr>jsonBuffer = whole ''ab'', currentPath = CHR ''a'', valueOffset = 1\<rparr>\<rparr>"

definition cursor_ab_end :: "char JsonCursor" where
  "cursor_ab_end =
     \<lparr>cur = 1, jsonScanner = \<lparr>jsonBuffer = whole ''ab'', currentPath = CHR ''b'', valueOffset = 2\<rparr>\<rparr>"


definition cursor_cz_start :: "char JsonCursor" where
  "cursor_cz_start =
     \<lparr>cur = 1, jsonScanner = \<lparr>jsonBuffer = whole ''cz'', currentPath = CHR ''b'', valueOffset = 0\<rparr>\<rparr>"

definition cursor_c :: "char JsonCursor" where
  "cursor_c =
     \<lparr>cur = 1, jsonScanner = \<lparr>jsonBuffer = whole ''cz'', currentPath = CHR ''c'', valueOffset = 1\<rparr>\<rparr>"

text \<open>The store on the second leaf after the root cursor alone has retreated once.\<close>

definition heap_parent_retreated :: heap where
  "heap_parent_retreated =
     [\<lparr>nd = rootN, idx = 0, parent = None\<rparr>, \<lparr>nd = leafB, idx = 0, parent = Some 0\<rparr>]"

text \<open>
  The store after the root cursor was sought to the second entry, and after the second leaf was
  loaded and its previous key computed (the two clones are the new objects).
\<close>

definition heap_seeked :: heap where
  "heap_seeked =
     [\<lparr>nd = rootN, idx = 1, parent = None\<rparr>, \<lparr>nd = leafA, idx = 0, parent = Some 0\<rparr>]"

definition heap_reloaded :: heap where
  "heap_reloaded = heap_last @
     [\<lparr>nd = rootN, idx = 0, parent = None\<rparr>, \<lparr>nd = leafA, idx = 0, parent = Some 2\<rparr>]"

section \<open>Properties of the table-hash map\<close>

lemma mapTableHashes_loop_absent:
  "GetTableHash root name = (h, False, None) \<Longrightarrow>
   mapTableHashes_loop root (pre @ name # post) m =
     Panic (PanicMessage ''GetTableNames returned a table that GetTableHash says isn't there.'') \<or>
   (\<exists>n \<in> set pre. \<exists>h' ok e. GetTableHash root n = (h', ok, Some e) \<and>
      mapTableHashes_loop root (pre @ name # post) m = Ret (Inl e))"
proof (induction pre arbitrary: m)
  case Nil
  then show ?case by simp
next
  case (Cons n pre)
  obtain h' ok err where g: "GetTableHash root n = (h', ok, err)"
    by (cases "GetTableHash root n")
  show ?case
  proof (cases err)
    case (Some e)
    with g show ?thesis by auto
  next
    case None
    show ?thesis
    proof (cases ok)
      case False
      with g None show ?thesis by simp
    next
      case True
      define r where "r = mapTableHashes_loop root (pre @ name # post) (m(n \<mapsto> h'))"
      from g None True have eq: "mapTableHashes_loop root ((n # pre) @ name # post) m = r"
        by (simp add: r_def)
      from Cons.IH [OF Cons.prems, of "m(n \<mapsto> h')"] have
        "r = Panic (PanicMessage ''GetTableNames returned a table that GetTableHash says isn't there.'') \<or>
         (\<exists>n \<in> set pre. \<exists>h' ok e. GetTableHash root n = (h', ok, Some e) \<and> r = Ret (Inl e))"
        by (simp add: r_def fun_upd_def)
      then show ?thesis unfolding eq by auto
    qed
  qed
qed

lemma mapTableHashes_loop_error:
  "mapTableHashes_loop root names m = Ret (Inl e) \<Longrightarrow>
   \<exists>n \<in> set names. \<exists>h ok. GetTableHash root n = (h, ok, Some e)"
proof (induction names arbitrary: m)
  case Nil
  then show ?case by simp
next
  case (Cons n names)
  obtain h' ok err where g: "GetTableHash root n = (h', ok, err)"
    by (cases "GetTableHash root n")
  show ?case
  proof (cases err)
    case (Some e')
    with g Cons.prems show ?thesis by auto
  next
    case None
    with g Cons.prems have ok: ok and
      r: "mapTableHashes_loop root names (m(n \<mapsto> h')) = Ret (Inl e)"
      by (auto split: if_splits)
    from Cons.IH [OF r] show ?thesis by auto
  qed
qed

lemma mapTableHashes_loop_panic:
  "mapTableHashes_loop root names m = Panic p \<Longrightarrow>
   p = PanicMessage ''GetTableNames returned a table that GetTableHash says isn't there.'' \<and>
   (\<exists>n \<in> set names. \<exists>h. GetTableHash root n = (h, False, None))"
proof (induction names arbitrary: m)
  case Nil
  then show ?case by simp
next
  case (Cons n names)
  obtain h' ok err where g: "GetTableHash root n = (h', ok, err)"
    by (cases "GetTableHash root n")
  show ?case
  proof (cases err)
    case (Some e')
    with g Cons.prems show ?thesis by auto
  next
    case None
    show ?thesis
    proof (cases ok)
      case False
      with g None Cons.prems show ?thesis by auto
    next
      case True
      with g None Cons.prems have
        r: "mapTableHashes_loop root names (m(n \<mapsto> h')) = Panic p"
        by simp
      from Cons.IH [OF r] show ?thesis by auto
    qed
  qed
qed

text \<open>
  C9, as the code has it.  \<^verbatim>\<open>mapTableHashes\<close> looks the names up in the order in which
  \<^verbatim>\<open>GetTableNames\<close> lists them.  When \<^verbatim>\<open>GetTableHash\<close> reports one of them absent without an
  error, the call panics with its fixed message, unless \<^verbatim>\<open>GetTableHash\<close> returned an error for
  a name listed before it, which is then what the call returns: no map is returned and no
  error value stands for the absent table.  An error value that reaches the caller is the
  error of \<^verbatim>\<open>GetTableNames\<close> or an error that \<^verbatim>\<open>GetTableHash\<close> returned for a listed name, and
  the only panic is the one for a listed name that is reported absent.
\<close>

theorem mapTableHashes_absent_table_panics:
  "(\<forall>pre name post h.
      GetTableNames root = Inr (pre @ name # post) \<and> GetTableHash root name = (h, False, None) \<longrightarrow>
      mapTableHashes root =
        Panic (PanicMessage ''GetTableNames returned a table that GetTableHash says isn't there.'') \<or>
      (\<exists>n \<in> set pre. \<exists>h' ok e. GetTableHash root n = (h', ok, Some e) \<and>
         mapTableHashes root = Ret (Inl e))) \<and>
   (\<forall>e. mapTableHashes root = Ret (Inl e) \<longrightarrow>
      GetTableNames root = Inl e \<or>
      (\<exists>names. GetTableNames root = Inr names \<and>
         (\<exists>n \<in> set names. \<exists>h ok. GetTableHash root n = (h, ok, Some e)))) \<and>
   (\<forall>p. mapTableHashes root = Panic p \<longrightarrow>
      p = PanicMessage ''GetTableNames returned a table that GetTableHash says isn't there.'' \<and>
      (\<exists>names. GetTableNames root = Inr names \<and>
         (\<exists>n \<in> set names. \<exists>h. GetTableHash root n = (h, False, None))))"
proof (intro conjI allI impI)
  fix pre name post h
  assume "GetTableNames root = Inr (pre @ name # post) \<and> GetTableHash root name = (h, False, None)"
  then have n: "GetTableNames root = Inr (pre @ name # post)"
    and a: "GetTableHash root name = (h, False, None)" by simp_all
  from mapTableHashes_loop_absent [OF a, of pre post Map.empty] n
  show "mapTableHashes root =
        Panic (PanicMessage ''GetTableNames returned a table that GetTableHash says isn't there.'') \<or>
      (\<exists>n \<in> set pre. \<exists>h' ok e. GetTableHash root n = (h', ok, Some e) \<and>
         mapTableHashes root = Ret (Inl e))"
    by (simp add: mapTableHashes_def)
next
  fix e
  assume r: "mapTableHashes root = Ret (Inl e)"
  show "GetTableNames root = Inl e \<or>
      (\<exists>names. GetTableNames root = Inr names \<and>
         (\<exists>n \<in> set names. \<exists>h ok. GetTableHash root n = (h, ok, Some e)))"
  proof (cases "GetTableNames root")
    case (Inl e')
    with r show ?thesis by (simp add: mapTableHashes_def)
  next
    case (Inr names)
    with r have "mapTableHashes_loop root names Map.empty = Ret (Inl e)"
      by (simp add: mapTableHashes_def)
    from mapTableHashes_loop_error [OF this] Inr show ?thesis by simp
  qed
next
  fix p
  assume r: "mapTableHashes root = Panic p"
  show "p = PanicMessage ''GetTableNames returned a table that GetTableHash says isn't there.''"
  proof (cases "GetTableNames root")
    case (Inl e')
    with r show ?thesis by (simp add: mapTableHashes_def)
  next
    case (Inr names)
    with r have "mapTableHashes_loop root names Map.empty = Panic p"
      by (simp add: mapTableHashes_def)
    from mapTableHashes_loop_panic [OF this] show ?thesis by simp
  qed
next
  fix p
  assume r: "mapTableHashes root = Panic p"
  show "\<exists>names. GetTableNames root = Inr names \<and>
         (\<exists>n \<in> set names. \<exists>h. GetTableHash root n = (h, False, None))"
  proof (cases "GetTableNames root")
    case (Inl e')
    with r show ?thesis by (simp add: mapTableHashes_def)
  next
    case (Inr names)
    with r have "mapTableHashes_loop root names Map.empty = Panic p"
      by (simp add: mapTableHashes_def)
    from mapTableHashes_loop_panic [OF this] Inr show ?thesis by simp
  qed
qed

text \<open>
  C9 (as the code has it) on a root value whose only table is reported absent, on one whose
  first table cannot be read, and on one whose names cannot be listed.
\<close>

theorem mapTableHashes_absent_table_panics_witness:
  "GetTableNames mismatched_root = Inr ([] @ ''t'' # []) \<and>
   GetTableHash mismatched_root ''t'' = ([], False, None) \<and>
   mapTableHashes mismatched_root =
     Panic (PanicMessage ''GetTableNames returned a table that GetTableHash says isn't there.'') \<and>
   (\<exists>names. GetTableNames mismatched_root = Inr names \<and>
      (\<exists>n \<in> set names. \<exists>h. GetTableHash mismatched_root n = (h, False, None))) \<and>
   GetTableNames failing_root = Inr ([''s''] @ ''t'' # []) \<and>
   GetTableHash failing_root ''t'' = ([], False, None) \<and>
   GetTableHash failing_root ''s'' = ([], False, Some (OtherError ''read failed'')) \<and>
   mapTableHashes failing_root = Ret (Inl (OtherError ''read failed'')) \<and>
   (\<exists>n \<in> set [''s'']. \<exists>h' ok. GetTableHash failing_root n = (h', ok, Some (OtherError ''read failed''))) \<and>
   mapTableHashes unlisted_root = Ret (Inl (OtherError ''no table names'')) \<and>
   GetTableNames unlisted_root = Inl (OtherError ''no table names'')"
proof -
  have a: "GetTableNames mismatched_root = Inr ([] @ ''t'' # [])"
    by (simp add: mismatched_root_def)
  have c: "GetTableHash mismatched_root ''t'' = ([], False, None)"
    by (simp add: mismatched_root_def)
  note t1 = mapTableHashes_absent_table_panics [of mismatched_root]
  from t1 a c
  have 1: "mapTableHashes mismatched_root =
     Panic (PanicMessage ''GetTableNames returned a table that GetTableHash says isn't there.'')"
    by fastforce
  from t1 1 have p1: "\<exists>names. GetTableNames mismatched_root = Inr names \<and>
      (\<exists>n \<in> set names. \<exists>h. GetTableHash mismatched_root n = (h, False, None))"
    by blast
  have a2: "GetTableNames failing_root = Inr ([''s''] @ ''t'' # [])"
    by (simp add: failing_root_def)
  have c2: "GetTableHash failing_root ''t'' = ([], False, None)"
    by (simp add: failing_root_def)
  have d2: "GetTableHash failing_root ''s'' = ([], False, Some (OtherError ''read failed''))"
    by (simp add: failing_root_def)
  have 2: "mapTableHashes failing_root = Ret (Inl (OtherError ''read failed''))"
    by (simp add: mapTableHashes_def failing_root_def)
  from mapTableHashes_absent_table_panics [of failing_root] a2 c2 have
    "mapTableHashes failing_root =
       Panic (PanicMessage ''GetTableNames returned a table that GetTableHash says isn't there.'') \<or>
     (\<exists>n \<in> set [''s'']. \<exists>h' ok e. GetTableHash failing_root n = (h', ok, Some e) \<and>
        mapTableHashes failing_root = Ret (Inl e))"
    by blast
  with 2 have p2: "\<exists>n \<in> set [''s'']. \<exists>h' ok.
      GetTableHash failing_root n = (h', ok, Some (OtherError ''read failed''))"
    by auto
  have 3: "mapTableHashes unlisted_root = Ret (Inl (OtherError ''no table names''))"
    by (simp add: mapTableHashes_def unlisted_root_def)
  from mapTableHashes_absent_table_panics [of unlisted_root] 3
  have 4: "GetTableNames unlisted_root = Inl (OtherError ''no table names'') \<or>
      (\<exists>names. GetTableNames unlisted_root = Inr names \<and>
         (\<exists>n \<in> set names. \<exists>h ok. GetTableHash unlisted_root n = (h, ok, Some (OtherError ''no table names''))))"
    by blast
  have "\<And>n. GetTableHash unlisted_root n = ([], True, None)" by (simp add: unlisted_root_def)
  with 4 have 5: "GetTableNames unlisted_root = Inl (OtherError ''no table names'')" by auto
  from a c 1 p1 a2 c2 d2 2 p2 3 5 show ?thesis by (intro conjI)
qed

text \<open>
  C9 as worded fails: on that root value the result is a panic, not a returned error value.
\<close>

theorem mapTableHashes_typed_error_counterexample:
  "mapTableHashes mismatched_root \<noteq> Ret (Inl (OtherError ''table not found'')) \<and>
   mapTableHashes mismatched_root =
     Panic (PanicMessage ''GetTableNames returned a table that GetTableHash says isn't there.'')"
  by (simp add: mapTableHashes_def mismatched_root_def)

section \<open>Properties of the tree cursor\<close>

lemma cell_append: "cell h a = Some c \<Longrightarrow> cell (h @ xs) a = Some c"
  by (auto simp: cell_def nth_append split: if_splits)

lemma cell_lengthD: "cell h a = Some c \<Longrightarrow> a < length h \<and> h ! a = c"
  by (auto simp: cell_def split: if_splits)

lemma cell_alloc: "cell (h @ [c]) (length h) = Some c"
  by (simp add: cell_def)

lemma cell_update_same: "a < length h \<Longrightarrow> cell (h[a := c]) a = Some c"
  by (simp add: cell_def)

lemma chain_from_append: "chain_from lo n h a \<Longrightarrow> chain_from lo n (h @ xs) a"
proof (induction n arbitrary: a)
  case 0
  then show ?case by simp
next
  case (Suc n)
  then obtain c where c: "cell h a = Some c" and lo: "lo \<le> a"
    by (auto split: option.splits)
  show ?case
  proof (cases "parent c")
    case None
    with c lo show ?thesis by (simp add: cell_append)
  next
    case (Some p)
    with Suc.prems c have "chain_from lo n h p" by simp
    from Suc.IH [OF this] c lo Some show ?thesis by (simp add: cell_append)
  qed
qed

lemma at_tree_start_append: "at_tree_start n h a \<Longrightarrow> at_tree_start n (h @ xs) a"
proof (induction n arbitrary: a)
  case 0
  then show ?case by simp
next
  case (Suc n)
  then obtain c where c: "cell h a = Some c" and i: "idx c = 0"
    by (auto split: option.splits)
  show ?case
  proof (cases "parent c")
    case None
    with c i show ?thesis by (simp add: cell_append)
  next
    case (Some p)
    with Suc.prems c have "at_tree_start n h p" by simp
    from Suc.IH [OF this] c i Some show ?thesis by (simp add: cell_append)
  qed
qed

lemma at_tree_start_chain: "at_tree_start n h a \<Longrightarrow> chain_from 0 n h a"
  by (induction n arbitrary: a) (auto split: option.splits)

lemma clone_chain:
  "chain_from lo n h a \<Longrightarrow>
   \<exists>h1 a2 c c2. clone h a = Some (Ret (h1, a2)) \<and> take (length h) h1 = h \<and>
     length h \<le> a2 \<and> a2 < length h1 \<and> chain_from (length h) n h1 a2 \<and>
     cell h a = Some c \<and> cell h1 a2 = Some c2 \<and> nd c2 = nd c \<and> idx c2 = idx c \<and>
     (parent c2 = None \<longleftrightarrow> parent c = None) \<and>
     (at_tree_start n h a \<longrightarrow> at_tree_start n h1 a2)"
proof (induction n arbitrary: a)
  case 0
  then show ?case by simp
next
  case (Suc n)
  then obtain c where c: "cell h a = Some c" and lo: "lo \<le> a"
    by (auto split: option.splits)
  show ?case
  proof (cases "parent c")
    case None
    then have "clone h a = Some (Ret (h @ [c], length h))"
      using c by (subst clone.simps) simp
    with c None show ?thesis
      by (auto simp: cell_alloc)
  next
    case (Some p)
    with Suc.prems c have "chain_from lo n h p" by simp
    from Suc.IH [OF this] obtain hp p2 pc pc2 where
      cl: "clone h p = Some (Ret (hp, p2))" and tk: "take (length h) hp = h" and
      p2: "length h \<le> p2" "p2 < length hp" and ch: "chain_from (length h) n hp p2" and
      rest: "cell h p = Some pc" "cell hp p2 = Some pc2" "nd pc2 = nd pc" "idx pc2 = idx pc" and
      st: "at_tree_start n h p \<longrightarrow> at_tree_start n hp p2"
      by blast
    let ?x = "c\<lparr>parent := Some p2\<rparr>"
    have eq: "clone h a = Some (Ret (hp @ [?x], length hp))"
      using c Some cl by (subst clone.simps) simp
    have len: "length h \<le> length hp" using p2 by simp
    have 1: "take (length h) (hp @ [?x]) = h" using tk len by simp
    have 2: "chain_from (length h) (Suc n) (hp @ [?x]) (length hp)"
      using chain_from_append [OF ch, of "[?x]"] len by (simp add: cell_alloc)
    have 3: "at_tree_start (Suc n) h a \<longrightarrow> at_tree_start (Suc n) (hp @ [?x]) (length hp)"
      using st c Some at_tree_start_append [of n hp p2 "[?x]"] by (auto simp: cell_alloc)
    show ?thesis
      using eq 1 2 3 c len Some by (auto simp: cell_alloc simp del: chain_from.simps at_tree_start.simps)
  qed
qed

lemma fetchNode_frame:
  "fetchNode ns h a p pos = Ret (h', e) \<Longrightarrow>
   length h' = length h \<and> (lo \<le> a \<longrightarrow> take lo h' = take lo h)"
  by (auto simp: fetchNode_def split: result.splits prod.splits option.splits)

lemma retreat_chain:
  "chain_from lo n h a \<Longrightarrow>
   \<exists>r. retreat ns h a = Some r \<and>
     (\<forall>h' e. r = Ret (h', e) \<longrightarrow> length h' = length h \<and> take lo h' = take lo h)"
proof (induction n arbitrary: a)
  case 0
  then show ?case by simp
next
  case (Suc n)
  then obtain c where c: "cell h a = Some c" and lo: "lo \<le> a"
    by (auto split: option.splits)
  show ?case
  proof (cases "0 < idx c")
    case True
    then have "retreat ns h a = Some (Ret (h[a := c\<lparr>idx := idx c - 1\<rparr>], None))"
      using c by (subst retreat.simps) simp
    with lo show ?thesis by simp
  next
    case False
    show ?thesis
    proof (cases "parent c")
      case None
      then have "retreat ns h a = Some (Ret (h[a := c\<lparr>idx := - 1\<rparr>], None))"
        using c False by (subst retreat.simps) simp
      with lo show ?thesis by simp
    next
      case (Some p)
      with Suc.prems c have "chain_from lo n h p" by simp
      from Suc.IH [OF this] obtain r0 where
        r0: "retreat ns h p = Some r0" and
        fr: "\<forall>h' e. r0 = Ret (h', e) \<longrightarrow> length h' = length h \<and> take lo h' = take lo h"
        by blast
      have eq: "retreat ns h a =
          (case r0 of
             Panic x \<Rightarrow> Some (Panic x)
           | Ret (h1, Some e) \<Rightarrow> Some (Ret (h1, Some e))
           | Ret (h1, None) \<Rightarrow>
               (case deref h1 (Some p) of
                  Panic x \<Rightarrow> Some (Panic x)
                | Ret pc \<Rightarrow>
                    if \<not> Valid pc then Some (Ret (h1[a := (h1 ! a)\<lparr>idx := - 1\<rparr>], None))
                    else Some (fetchNode ns h1 a p (\<lambda>n. count n - 1))))"
        using c False Some r0 by (subst retreat.simps) simp
      show ?thesis
      proof (cases r0)
        case (Panic x)
        then show ?thesis using eq by simp
      next
        case (Ret y)
        obtain h1 e1 where y: "y = (h1, e1)" by (cases y)
        from fr Ret y have f1: "length h1 = length h" "take lo h1 = take lo h" by auto
        show ?thesis
        proof (cases e1)
          case (Some e)
          then show ?thesis using eq Ret y f1 by simp
        next
          case None
          show ?thesis
          proof (cases "deref h1 (Some p)")
            case (Panic x)
            then show ?thesis using eq Ret y None by simp
          next
            case pc: (Ret pc)
            show ?thesis
            proof (cases "Valid pc")
              case False
              then show ?thesis using eq Ret y None pc f1 lo by simp
            next
              case True
              then have "retreat ns h a = Some (fetchNode ns h1 a p (\<lambda>n. count n - 1))"
                using eq Ret y None pc by simp
              then show ?thesis
                using fetchNode_frame [of ns h1 a p "\<lambda>n. count n - 1" _ _ lo] f1 lo
                by auto
            qed
          qed
        qed
      qed
    qed
  qed
qed

lemma retreat_at_tree_start:
  "at_tree_start n h a \<Longrightarrow>
   \<exists>h' c'. retreat ns h a = Some (Ret (h', None)) \<and> length h' = length h \<and>
     cell h' a = Some c' \<and> idx c' = - 1"
proof (induction n arbitrary: a)
  case 0
  then show ?case by simp
next
  case (Suc n)
  then obtain c where c: "cell h a = Some c" and i: "idx c = 0"
    by (auto split: option.splits)
  from c have a: "a < length h" by (simp add: cell_lengthD)
  show ?case
  proof (cases "parent c")
    case None
    then have "retreat ns h a = Some (Ret (h[a := c\<lparr>idx := - 1\<rparr>], None))"
      using c i by (subst retreat.simps) simp
    with a show ?thesis by (simp add: cell_update_same)
  next
    case (Some p)
    with Suc.prems c have "at_tree_start n h p" by simp
    from Suc.IH [OF this] obtain h1 pc where
      r0: "retreat ns h p = Some (Ret (h1, None))" and len: "length h1 = length h" and
      pc: "cell h1 p = Some pc" "idx pc = - 1"
      by blast
    have "\<not> Valid pc" using pc by (simp add: Valid_def)
    then have "retreat ns h a = Some (Ret (h1[a := (h1 ! a)\<lparr>idx := - 1\<rparr>], None))"
      using c i Some r0 pc by (subst retreat.simps) (simp add: deref_def)
    with a len show ?thesis by (simp add: cell_update_same)
  qed
qed

lemma chain_from_Suc: "chain_from lo n h a \<Longrightarrow> chain_from lo (Suc n) h a"
proof (induction n arbitrary: a)
  case 0
  then show ?case by simp
next
  case (Suc n)
  then obtain c where c: "cell h a = Some c" and lo: "lo \<le> a"
    by (auto split: option.splits)
  show ?case
  proof (cases "parent c")
    case None
    with c lo show ?thesis by simp
  next
    case (Some p)
    with Suc.prems c have "chain_from lo n h p" by simp
    from Suc.IH [OF this] c lo Some show ?thesis by simp
  qed
qed

lemma chain_addrs_Suc: "chain_from lo n h a \<Longrightarrow> chain_addrs (Suc n) h a = chain_addrs n h a"
proof (induction n arbitrary: a)
  case 0
  then show ?case by simp
next
  case (Suc n)
  then obtain c where c: "cell h a = Some c"
    by (auto split: option.splits)
  show ?case
  proof (cases "parent c")
    case None
    with c show ?thesis by simp
  next
    case (Some p)
    with Suc.prems c have "chain_from lo n h p" by simp
    from Suc.IH [OF this] c Some show ?thesis by simp
  qed
qed

lemma levels_Suc: "chain_from lo n h a \<Longrightarrow> levels (Suc n) h a = levels n h a"
proof (induction n arbitrary: a)
  case 0
  then show ?case by simp
next
  case (Suc n)
  then obtain c where c: "cell h a = Some c"
    by (auto split: option.splits)
  show ?case
  proof (cases "parent c")
    case None
    with c show ?thesis by simp
  next
    case (Some p)
    with Suc.prems c have "chain_from lo n h p" by simp
    from Suc.IH [OF this] c Some show ?thesis by simp
  qed
qed

lemma on_chain_shorter:
  "chain_from lo n h a \<Longrightarrow> x \<in> set (chain_addrs n h a) \<Longrightarrow>
   chain_from lo n h x \<and> length (chain_addrs n h x) \<le> length (chain_addrs n h a)"
proof (induction n arbitrary: a)
  case 0
  then show ?case by simp
next
  case (Suc n)
  then obtain c where c: "cell h a = Some c" and lo: "lo \<le> a"
    by (auto split: option.splits)
  show ?case
  proof (cases "x = a")
    case True
    with Suc.prems show ?thesis by simp
  next
    case False
    with Suc.prems c obtain p where p: "parent c = Some p" and x: "x \<in> set (chain_addrs n h p)"
      by (auto split: option.splits)
    with Suc.prems c have ch: "chain_from lo n h p" by simp
    from Suc.IH [OF ch x] have 1: "chain_from lo n h x"
      and 2: "length (chain_addrs n h x) \<le> length (chain_addrs n h p)" by simp_all
    have "chain_addrs (Suc n) h x = chain_addrs n h x" using 1 by (rule chain_addrs_Suc)
    moreover have "chain_addrs (Suc n) h a = a # chain_addrs n h p" using c p by simp
    ultimately show ?thesis using 1 2 chain_from_Suc [OF 1] by simp
  qed
qed

lemma chain_acyclic:
  assumes "chain_from lo (Suc n) h a" and "cell h a = Some c" and "parent c = Some p"
  shows "a \<notin> set (chain_addrs n h p)"
proof
  assume a: "a \<in> set (chain_addrs n h p)"
  from assms have ch: "chain_from lo n h p" by simp
  from on_chain_shorter [OF ch a] have 1: "chain_from lo n h a"
    and 2: "length (chain_addrs n h a) \<le> length (chain_addrs n h p)" by simp_all
  have "chain_addrs (Suc n) h a = chain_addrs n h a" using 1 by (rule chain_addrs_Suc)
  moreover have "chain_addrs (Suc n) h a = a # chain_addrs n h p" using assms by simp
  ultimately show False using 2 by simp
qed

lemma off_chain_update:
  "a \<notin> set (chain_addrs n h p) \<Longrightarrow>
   chain_addrs n (h[a := x]) p = chain_addrs n h p \<and> levels n (h[a := x]) p = levels n h p"
proof (induction n arbitrary: p)
  case 0
  then show ?case by simp
next
  case (Suc n)
  show ?case
  proof (cases "cell h p")
    case None
    then show ?thesis by (auto simp: cell_def split: if_splits)
  next
    case (Some c)
    with Suc.prems have ne: "a \<noteq> p" by auto
    then have c': "cell (h[a := x]) p = Some c"
      using Some by (auto simp: cell_def split: if_splits)
    show ?thesis
    proof (cases "parent c")
      case None
      with Some c' show ?thesis by simp
    next
      case q: (Some q)
      with Suc.prems Some have "a \<notin> set (chain_addrs n h q)" by simp
      from Suc.IH [OF this] Some c' q show ?thesis by simp
    qed
  qed
qed

lemma levels_append: "chain_from lo n h a \<Longrightarrow> levels n (h @ xs) a = levels n h a"
proof (induction n arbitrary: a)
  case 0
  then show ?case by simp
next
  case (Suc n)
  then obtain c where c: "cell h a = Some c"
    by (auto split: option.splits)
  show ?case
  proof (cases "parent c")
    case None
    with c show ?thesis by (simp add: cell_append)
  next
    case (Some p)
    with Suc.prems c have "chain_from lo n h p" by simp
    from Suc.IH [OF this] c Some show ?thesis by (simp add: cell_append)
  qed
qed

lemma clone_levels:
  "chain_from lo n h a \<Longrightarrow>
   \<exists>h1 a2. clone h a = Some (Ret (h1, a2)) \<and> levels n h1 a2 = levels n h a \<and>
     chain_from (length h) n h1 a2"
proof (induction n arbitrary: a)
  case 0
  then show ?case by simp
next
  case (Suc n)
  then obtain c where c: "cell h a = Some c"
    by (auto split: option.splits)
  show ?case
  proof (cases "parent c")
    case None
    then have "clone h a = Some (Ret (h @ [c], length h))"
      using c by (subst clone.simps) simp
    with c None show ?thesis by (simp add: cell_alloc)
  next
    case (Some p)
    with Suc.prems c have chp: "chain_from lo n h p" by simp
    from Suc.IH [OF chp] obtain hp p2 where
      cl: "clone h p = Some (Ret (hp, p2))" and lv: "levels n hp p2 = levels n h p" and
      ch: "chain_from (length h) n hp p2"
      by blast
    from clone_chain [OF chp] cl have len: "length h \<le> length hp" by auto
    let ?x = "c\<lparr>parent := Some p2\<rparr>"
    have eq: "clone h a = Some (Ret (hp @ [?x], length hp))"
      using c Some cl by (subst clone.simps) simp
    have 1: "levels (Suc n) (hp @ [?x]) (length hp) = levels (Suc n) h a"
      using levels_append [OF ch, of "[?x]"] lv c Some by (simp add: cell_alloc)
    have 2: "chain_from (length h) (Suc n) (hp @ [?x]) (length hp)"
      using chain_from_append [OF ch, of "[?x]"] len by (simp add: cell_alloc)
    from eq 1 2 show ?thesis by blast
  qed
qed

lemma levels_nonempty:
  "chain_from lo n h a \<Longrightarrow> cell h' a = Some c \<Longrightarrow> \<exists>rest. levels n h' a = (nd c, idx c) # rest"
  by (cases n) auto

lemma retreat_refines:
  "chain_from lo n h a \<Longrightarrow>
   \<exists>h' e. retreat ns h a = Some (Ret (h', e)) \<and>
     retreat_levels ns (levels n h a) = Ret (levels n h' a, e) \<and>
     length h' = length h \<and>
     chain_addrs n h' a = chain_addrs n h a \<and>
     (\<forall>b. b \<notin> set (chain_addrs n h a) \<longrightarrow> h' ! b = h ! b)"
proof (induction n arbitrary: a)
  case 0
  then show ?case by simp
next
  case (Suc n)
  then obtain c where c: "cell h a = Some c" and lo: "lo \<le> a"
    by (auto split: option.splits)
  from c have a: "a < length h" and ha: "h ! a = c" by (simp_all add: cell_lengthD)
  show ?case
  proof (cases "parent c")
    case None
    have lv: "levels (Suc n) h a = [(nd c, idx c)]" using c None by simp
    show ?thesis
    proof (cases "0 < idx c")
      case True
      then have "retreat ns h a = Some (Ret (h[a := c\<lparr>idx := idx c - 1\<rparr>], None))"
        using c by (subst retreat.simps) simp
      with True lv a c None show ?thesis by (simp add: cell_update_same)
    next
      case False
      then have "retreat ns h a = Some (Ret (h[a := c\<lparr>idx := - 1\<rparr>], None))"
        using c None by (subst retreat.simps) simp
      with False lv a c None show ?thesis by (simp add: cell_update_same)
    qed
  next
    case (Some p)
    with Suc.prems c have chp: "chain_from lo n h p" by simp
    have nc: "a \<notin> set (chain_addrs n h p)"
      using chain_acyclic [OF Suc.prems c Some] .
    have lv: "levels (Suc n) h a = (nd c, idx c) # levels n h p" using c Some by simp
    have ca: "chain_addrs (Suc n) h a = a # chain_addrs n h p" using c Some by simp
    show ?thesis
    proof (cases "0 < idx c")
      case True
      let ?h' = "h[a := c\<lparr>idx := idx c - 1\<rparr>]"
      have r: "retreat ns h a = Some (Ret (?h', None))"
        using c True by (subst retreat.simps) simp
      have "levels (Suc n) ?h' a = (nd c, idx c - 1) # levels n h p"
        using a Some off_chain_update [OF nc] by (simp add: cell_update_same)
      moreover have "chain_addrs (Suc n) ?h' a = a # chain_addrs n h p"
        using a Some off_chain_update [OF nc] by (simp add: cell_update_same)
      ultimately show ?thesis using r True lv ca by simp
    next
      case False
      from Suc.IH [OF chp] obtain h1 e1 where
        r0: "retreat ns h p = Some (Ret (h1, e1))" and
        rl: "retreat_levels ns (levels n h p) = Ret (levels n h1 p, e1)" and
        len: "length h1 = length h" and
        ca1: "chain_addrs n h1 p = chain_addrs n h p" and
        fr: "\<forall>b. b \<notin> set (chain_addrs n h p) \<longrightarrow> h1 ! b = h ! b"
        by blast
      from chp obtain pc0 where pc0: "cell h p = Some pc0"
        by (cases n) (auto split: option.splits)
      then have p: "p < length h" by (simp add: cell_lengthD)
      have h1a: "h1 ! a = c" using fr nc ha by simp
      have c1: "cell h1 a = Some c" using h1a a len by (simp add: cell_def)
      let ?pc = "h1 ! p"
      have cp1: "cell h1 p = Some ?pc" using p len by (simp add: cell_def)
      have dp: "deref h1 (Some p) = Ret ?pc" using cp1 by (simp add: deref_def)
      from levels_nonempty [OF chp cp1] obtain rest where
        l1: "levels n h1 p = (nd ?pc, idx ?pc) # rest" by blast
      from levels_nonempty [OF chp pc0] have ne: "levels n h p \<noteq> []" by auto
      have nc1: "a \<notin> set (chain_addrs n h1 p)" using nc ca1 by simp
      have eq: "retreat ns h a =
          (case e1 of
             Some e \<Rightarrow> Some (Ret (h1, Some e))
           | None \<Rightarrow>
               if \<not> Valid ?pc then Some (Ret (h1[a := c\<lparr>idx := - 1\<rparr>], None))
               else Some (fetchNode ns h1 a p (\<lambda>n. count n - 1)))"
        using c False Some r0 dp h1a by (subst retreat.simps) (simp split: option.splits)
      have rq: "retreat_levels ns (levels (Suc n) h a) =
          (case e1 of
             Some e \<Rightarrow> Ret ((nd c, idx c) # levels n h1 p, Some e)
           | None \<Rightarrow>
               if \<not> Valid ?pc then Ret ((nd c, - 1) # levels n h1 p, None)
               else
                 (case ns (elems (snd (entries (nd ?pc) ! nat (idx ?pc)))) of
                    (m, Some e) \<Rightarrow> Ret ((nd c, idx c) # levels n h1 p, Some e)
                  | (m, None) \<Rightarrow> Ret ((m, count m - 1) # levels n h1 p, None)))"
        using lv False ne rl l1 by (auto simp: Valid_def split: option.splits)
      show ?thesis
      proof (cases e1)
        case (Some e)
        have "levels (Suc n) h1 a = (nd c, idx c) # levels n h1 p"
          using c1 \<open>parent c = Some p\<close> by simp
        moreover have "chain_addrs (Suc n) h1 a = a # chain_addrs n h1 p"
          using c1 \<open>parent c = Some p\<close> by simp
        ultimately show ?thesis
          using eq rq Some len ca ca1 fr by simp
      next
        case None
        show ?thesis
        proof (cases "Valid ?pc")
          case False
          let ?h2 = "h1[a := c\<lparr>idx := - 1\<rparr>]"
          have "levels (Suc n) ?h2 a = (nd c, - 1) # levels n h1 p"
            using a len \<open>parent c = Some p\<close> off_chain_update [OF nc1]
            by (simp add: cell_update_same)
          moreover have "chain_addrs (Suc n) ?h2 a = a # chain_addrs n h1 p"
            using a len \<open>parent c = Some p\<close> off_chain_update [OF nc1]
            by (simp add: cell_update_same)
          ultimately show ?thesis
            using eq rq None False len ca ca1 fr by simp
        next
          case True
          obtain m fe where ns: "ns (elems (snd (entries (nd ?pc) ! nat (idx ?pc)))) = (m, fe)"
            by (cases "ns (elems (snd (entries (nd ?pc) ! nat (idx ?pc))))")
          show ?thesis
          proof (cases fe)
            case (Some e)
            have fn: "fetchNode ns h1 a p (\<lambda>n. count n - 1) = Ret (h1, Some e)"
              using dp True ns Some by (simp add: fetchNode_def currentRef_def currentValue_def)
            have "levels (Suc n) h1 a = (nd c, idx c) # levels n h1 p"
              using c1 \<open>parent c = Some p\<close> by simp
            moreover have "chain_addrs (Suc n) h1 a = a # chain_addrs n h1 p"
              using c1 \<open>parent c = Some p\<close> by simp
            ultimately show ?thesis
              using eq rq None True ns Some fn len ca ca1 fr by simp
          next
            case fnone: None
            let ?h2 = "h1[a := c\<lparr>nd := m, idx := count m - 1\<rparr>]"
            have fn: "fetchNode ns h1 a p (\<lambda>n. count n - 1) = Ret (?h2, None)"
              using dp True ns fnone h1a
              by (simp add: fetchNode_def currentRef_def currentValue_def)
            have "levels (Suc n) ?h2 a = (m, count m - 1) # levels n h1 p"
              using a len \<open>parent c = Some p\<close> off_chain_update [OF nc1]
              by (simp add: cell_update_same)
            moreover have "chain_addrs (Suc n) ?h2 a = a # chain_addrs n h1 p"
              using a len \<open>parent c = Some p\<close> off_chain_update [OF nc1]
              by (simp add: cell_update_same)
            ultimately show ?thesis
              using eq rq None True ns fnone fn len ca ca1 fr by simp
          qed
        qed
      qed
    qed
  qed
qed

lemma levels_Cons_hd:
  "levels n h a = x # rest \<Longrightarrow> \<exists>c. cell h a = Some c \<and> x = (nd c, idx c)"
  by (cases n) (auto split: option.splits)

lemma levels_Suc_Cons:
  "levels (Suc n) h a = x # rest \<Longrightarrow>
   \<exists>c. cell h a = Some c \<and> x = (nd c, idx c) \<and>
       rest = (case parent c of None \<Rightarrow> [] | Some p \<Rightarrow> levels n h p)"
  by (auto split: option.splits)

lemma chain_valid_levels:
  "chain_valid n h a \<Longrightarrow> \<forall>(m, i) \<in> set (levels n h a). 0 \<le> i \<and> i < count m"
proof (induction n arbitrary: a)
  case 0
  then show ?case by simp
next
  case (Suc n)
  then obtain c where c: "cell h a = Some c" and v: "Valid c"
    by (auto split: option.splits)
  show ?case
  proof (cases "parent c")
    case None
    with c v show ?thesis by (simp add: Valid_def)
  next
    case (Some p)
    with Suc.prems c have "chain_valid n h p" by simp
    from Suc.IH [OF this] c v Some show ?thesis by (simp add: Valid_def)
  qed
qed

lemma levels_zero_at_tree_start:
  "chain_from lo n h a \<Longrightarrow> \<forall>(m, i) \<in> set (levels n h a). i = 0 \<Longrightarrow> at_tree_start n h a"
proof (induction n arbitrary: a)
  case 0
  then show ?case by simp
next
  case (Suc n)
  then obtain c where c: "cell h a = Some c"
    by (auto split: option.splits)
  show ?case
  proof (cases "parent c")
    case None
    with c Suc.prems show ?thesis by simp
  next
    case (Some p)
    with Suc.prems c have "chain_from lo n h p" "\<forall>(m, i) \<in> set (levels n h p). i = 0"
      by simp_all
    from Suc.IH [OF this] c Some Suc.prems(2) show ?thesis by simp
  qed
qed

lemma retreat_levels_valid:
  "ls \<noteq> [] \<Longrightarrow> \<forall>(m, i) \<in> set ls. 0 \<le> i \<and> i < count m \<Longrightarrow>
   \<forall>r m. ns r = (m, None) \<longrightarrow> entries m \<noteq> [] \<Longrightarrow>
   retreat_levels ns ls = Ret (ls', None) \<Longrightarrow>
   \<exists>m i rest. ls' = (m, i) # rest \<and>
     ((0 \<le> i \<and> i < count m) \<longleftrightarrow> \<not> (\<forall>(m, i) \<in> set ls. i = 0))"
proof (induction ls arbitrary: ls')
  case Nil
  then show ?case by simp
next
  case (Cons x ps)
  obtain m i where x: "x = (m, i)" by (cases x)
  from Cons.prems(2) x have vi: "0 \<le> i" "i < count m" by simp_all
  show ?case
  proof (cases "0 < i")
    case True
    with Cons.prems(4) x vi show ?thesis by auto
  next
    case False
    with vi have i0: "i = 0" by simp
    show ?thesis
    proof (cases "ps = []")
      case True
      with Cons.prems(4) x i0 show ?thesis by auto
    next
      case ne: False
      from Cons.prems(4) x i0 ne obtain ps' where
        rp: "retreat_levels ns ps = Ret (ps', None)"
        by (auto split: result.splits option.splits list.splits prod.splits if_splits)
      have vp: "\<forall>(m, i) \<in> set ps. 0 \<le> i \<and> i < count m" using Cons.prems(2) by simp
      from Cons.IH [OF ne vp Cons.prems(3) rp] obtain pn pi rest where
        ps': "ps' = (pn, pi) # rest" and
        iff: "(0 \<le> pi \<and> pi < count pn) \<longleftrightarrow> \<not> (\<forall>(m, i) \<in> set ps. i = 0)"
        by blast
      show ?thesis
      proof (cases "0 \<le> pi \<and> pi < count pn")
        case False
        with Cons.prems(4) x i0 ne rp ps' have "ls' = (m, - 1) # ps'" by auto
        with False iff x i0 show ?thesis by auto
      next
        case True
        obtain mm fe where f: "ns (elems (snd (entries pn ! nat pi))) = (mm, fe)"
          by (cases "ns (elems (snd (entries pn ! nat pi)))")
        from Cons.prems(4) x i0 ne rp ps' True f have fe: "fe = None"
          and l': "ls' = (mm, count mm - 1) # ps'"
          by (auto split: option.splits)
        from Cons.prems(3) f fe have mm: "entries mm \<noteq> []" by blast
        note l'
        moreover have "0 \<le> count mm - 1 \<and> count mm - 1 < count mm"
          using mm by (cases "entries mm") (simp_all add: count_def)
        ultimately show ?thesis using True iff x by auto
      qed
    qed
  qed
qed

section \<open>Properties of \<^verbatim>\<open>getPreviousKey\<close>\<close>

text \<open>
  C8.  Computing the previous key works on a clone only.  For a cursor whose parent chain ends
  in \<^verbatim>\<open>nil\<close>, \<^verbatim>\<open>getPreviousKey\<close> returns (or panics), and when it returns every cursor object
  that existed before the call, the cursor and all of its ancestors among them, is what it was:
  node, index and parent pointer.  The clones are new objects behind the old ones.  Nodes are
  values held by cursor objects and by the node store, so their contents are unchanged as well.
\<close>

theorem getPreviousKey_leaves_cursors_unchanged:
  assumes "chain_from 0 n h a"
  shows "\<exists>r. getPreviousKey ns h a = Some r \<and>
     (\<forall>h' k e. r = Ret (h', k, e) \<longrightarrow> take (length h) h' = h)"
proof -
  from clone_chain [OF assms] obtain h1 a2 where
    cl: "clone h a = Some (Ret (h1, a2))" and tk: "take (length h) h1 = h" and
    ch: "chain_from (length h) n h1 a2"
    by blast
  from retreat_chain [OF ch, of ns] obtain r where
    r: "retreat ns h1 a2 = Some r" and
    fr: "\<forall>h' e. r = Ret (h', e) \<longrightarrow> length h' = length h1 \<and> take (length h) h' = take (length h) h1"
    by blast
  have gp: "getPreviousKey ns h a =
      (case r of
         Panic x \<Rightarrow> Some (Panic x)
       | Ret (h2, Some err) \<Rightarrow> Some (Ret (h2, None, Some err))
       | Ret (h2, None) \<Rightarrow>
           (case deref h2 (Some a2) of
              Panic x \<Rightarrow> Some (Panic x)
            | Ret c2 \<Rightarrow>
                if Valid c2 then
                  (case deref h2 (parent c2) of
                     Panic x \<Rightarrow> Some (Panic x)
                   | Ret pc \<Rightarrow>
                       (case CurrentKey pc of
                          Panic x \<Rightarrow> Some (Panic x)
                        | Ret k \<Rightarrow> Some (Ret (h2, Some k, None))))
                else Some (Ret (h2, None, None))))"
    using cl r by (simp add: getPreviousKey_def)
  show ?thesis
  proof (cases r)
    case (Panic x)
    then show ?thesis using gp by simp
  next
    case (Ret y)
    obtain h2 e2 where y: "y = (h2, e2)" by (cases y)
    from fr Ret y tk have f2: "take (length h) h2 = h" by auto
    show ?thesis
      using gp Ret y f2
      by (auto split: option.splits result.splits)
  qed
qed

text \<open>C8 on the two-level tree, with the leaf cursor on the second leaf.\<close>

theorem getPreviousKey_leaves_cursors_unchanged_witness:
  "chain_from 0 2 heap_last 1 \<and>
   getPreviousKey store heap_last 1 = Some (Ret (heap_reloaded, Some ''b'', None)) \<and>
   take (length heap_last) heap_reloaded = heap_last"
proof -
  have a: "chain_from 0 2 heap_last 1" by code_simp
  have b: "getPreviousKey store heap_last 1 = Some (Ret (heap_reloaded, Some ''b'', None))"
    by code_simp
  from getPreviousKey_leaves_cursors_unchanged [OF a, of store] b
  have "take (length heap_last) heap_reloaded = heap_last" by auto
  with a b show ?thesis by simp
qed

text \<open>
  C10.  \<^verbatim>\<open>getPreviousKey\<close> reads \<^verbatim>\<open>cur2.parent.CurrentKey()\<close> without a \<^verbatim>\<open>nil\<close> check whenever
  the retreated clone is valid.  For a cursor without a parent (the root node is itself the
  leaf) whose index is past the first entry, the clone is valid after retreating, its parent is
  \<^verbatim>\<open>nil\<close>, and the call panics.
\<close>

theorem getPreviousKey_nil_parent_panics:
  assumes "cell h a = Some c" and "parent c = None" and "0 < idx c" and "idx c \<le> count (nd c)"
  shows "getPreviousKey ns h a = Some (Panic NilDereference)"
proof -
  have cl: "clone h a = Some (Ret (h @ [c], length h))"
    using assms(1,2) by (subst clone.simps) simp
  have rt: "retreat ns (h @ [c]) (length h) =
      Some (Ret ((h @ [c])[length h := c\<lparr>idx := idx c - 1\<rparr>], None))"
    using assms(3) by (subst retreat.simps) (simp add: cell_alloc)
  have v: "Valid (c\<lparr>idx := idx c - 1\<rparr>)"
    using assms(3,4) by (simp add: Valid_def)
  show ?thesis
    using cl rt v assms(2)
    by (simp add: getPreviousKey_def deref_def cell_def)
qed

text \<open>C10 on a tree that is one leaf with two entries, the cursor on the second.\<close>

theorem getPreviousKey_nil_parent_panics_witness:
  "cell heap_single_leaf 0 = Some (heap_single_leaf ! 0) \<and>
   parent (heap_single_leaf ! 0) = None \<and>
   0 < idx (heap_single_leaf ! 0) \<and>
   idx (heap_single_leaf ! 0) \<le> count (nd (heap_single_leaf ! 0)) \<and>
   getPreviousKey store heap_single_leaf 0 = Some (Panic NilDereference)"
proof -
  have a: "cell heap_single_leaf 0 = Some (heap_single_leaf ! 0)" by code_simp
  have b: "parent (heap_single_leaf ! 0) = None" by code_simp
  have c: "0 < idx (heap_single_leaf ! 0)" by code_simp
  have d: "idx (heap_single_leaf ! 0) \<le> count (nd (heap_single_leaf ! 0))" by code_simp
  from getPreviousKey_nil_parent_panics [OF a b c d, of store] a b c d show ?thesis by simp
qed

text \<open>
  \<^verbatim>\<open>getPreviousKey\<close> at the first entry of a leaf.  For a cursor at index 0 of its leaf with a
  parent, the call returns the key of the entry at which the parent cursor stands after
  retreating once: the key under which the parent level holds the predecessor leaf (provided
  that leaf can be fetched and is not empty).  When every cursor of the chain is at index 0,
  the position is the first entry of the whole tree and the result is \<^verbatim>\<open>nil\<close> with no
  error; and for a chain of valid cursors over a store without empty nodes that is the only
  case in which the result is \<^verbatim>\<open>nil\<close> with no error.
\<close>

lemma getPreviousKey_first_entry:
  "(\<forall>c p hp pc nn.
      cell h a = Some c \<and> idx c = 0 \<and> parent c = Some p \<and> chain_from 0 n h p \<and>
      retreat ns h p = Some (Ret (hp, None)) \<and> cell hp p = Some pc \<and> Valid pc \<and>
      ns (elems (snd (entries (nd pc) ! nat (idx pc)))) = (nn, None) \<and> entries nn \<noteq> [] \<longrightarrow>
      (\<exists>h'. getPreviousKey ns h a =
               Some (Ret (h', Some (fst (entries (nd pc) ! nat (idx pc))), None)))) \<and>
   (at_tree_start n h a \<longrightarrow> (\<exists>h'. getPreviousKey ns h a = Some (Ret (h', None, None)))) \<and>
   (chain_from 0 n h a \<and> chain_valid n h a \<and>
    (\<forall>r m. ns r = (m, None) \<longrightarrow> entries m \<noteq> []) \<and>
    (\<exists>h'. getPreviousKey ns h a = Some (Ret (h', None, None))) \<longrightarrow> at_tree_start n h a)"
proof (intro conjI allI impI)
  fix c p hp pc nn
  assume as: "cell h a = Some c \<and> idx c = 0 \<and> parent c = Some p \<and> chain_from 0 n h p \<and>
      retreat ns h p = Some (Ret (hp, None)) \<and> cell hp p = Some pc \<and> Valid pc \<and>
      ns (elems (snd (entries (nd pc) ! nat (idx pc)))) = (nn, None) \<and> entries nn \<noteq> []"
  then have c: "cell h a = Some c" "idx c = 0" "parent c = Some p"
    and chp: "chain_from 0 n h p" and rp: "retreat ns h p = Some (Ret (hp, None))"
    and pc: "cell hp p = Some pc" "Valid pc"
    and ft: "ns (elems (snd (entries (nd pc) ! nat (idx pc)))) = (nn, None)" and ne: "entries nn \<noteq> []"
    by simp_all
  let ?k = "fst (entries (nd pc) ! nat (idx pc))"
  have cha: "chain_from 0 (Suc n) h a" using c chp by simp
  from clone_levels [OF cha] obtain h1 a2 where
    cl: "clone h a = Some (Ret (h1, a2))" and
    lv1: "levels (Suc n) h1 a2 = levels (Suc n) h a" and
    ch1: "chain_from (length h) (Suc n) h1 a2"
    by blast
  from retreat_refines [OF chp, of ns] rp have
    rlp: "retreat_levels ns (levels n h p) = Ret (levels n hp p, None)"
    by auto
  from levels_nonempty [OF chp pc(1)] obtain rest where
    lhp: "levels n hp p = (nd pc, idx pc) # rest" by blast
  from chp obtain pc0 where "cell h p = Some pc0" by (cases n) (auto split: option.splits)
  from levels_nonempty [OF chp this] have lne: "levels n h p \<noteq> []" by auto
  have "levels (Suc n) h a = (nd c, 0) # levels n h p" using c by simp
  then have rl: "retreat_levels ns (levels (Suc n) h1 a2) =
      Ret ((nn, count nn - 1) # (nd pc, idx pc) # rest, None)"
    using lv1 lne rlp lhp pc(2) ft by (simp add: Valid_def)
  from retreat_refines [OF ch1, of ns] rl obtain h2 where
    r2: "retreat ns h1 a2 = Some (Ret (h2, None))" and
    lv2: "levels (Suc n) h2 a2 = (nn, count nn - 1) # (nd pc, idx pc) # rest"
    by auto
  from levels_Suc_Cons [OF lv2] obtain c2 where
    c2: "cell h2 a2 = Some c2" "nd c2 = nn" "idx c2 = count nn - 1" and
    r2': "(nd pc, idx pc) # rest = (case parent c2 of None \<Rightarrow> [] | Some q \<Rightarrow> levels n h2 q)"
    by auto
  from r2' obtain q where q: "parent c2 = Some q" and lq: "levels n h2 q = (nd pc, idx pc) # rest"
    by (cases "parent c2") auto
  from levels_Cons_hd [OF lq] obtain qc where
    qc: "cell h2 q = Some qc" "nd qc = nd pc" "idx qc = idx pc"
    by auto
  have v2: "Valid c2" using c2 ne by (cases "entries nn") (simp_all add: Valid_def count_def)
  have vq: "Valid qc" using qc pc(2) by (simp add: Valid_def)
  have "getPreviousKey ns h a = Some (Ret (h2, Some ?k, None))"
    using cl r2 c2(1) v2 q qc vq by (simp add: getPreviousKey_def deref_def CurrentKey_def)
  then show "\<exists>h'. getPreviousKey ns h a = Some (Ret (h', Some ?k, None))" by blast
next
  assume st: "at_tree_start n h a"
  from clone_chain [OF at_tree_start_chain [OF st]] st obtain h1 a2 where
    cl: "clone h a = Some (Ret (h1, a2))" and st1: "at_tree_start n h1 a2"
    by blast
  from retreat_at_tree_start [OF st1, of ns] obtain h2 c2 where
    rt: "retreat ns h1 a2 = Some (Ret (h2, None))" and c2: "cell h2 a2 = Some c2" "idx c2 = - 1"
    by blast
  have "\<not> Valid c2" using c2 by (simp add: Valid_def)
  then have "getPreviousKey ns h a = Some (Ret (h2, None, None))"
    using cl rt c2 by (simp add: getPreviousKey_def deref_def)
  then show "\<exists>h'. getPreviousKey ns h a = Some (Ret (h', None, None))" by blast
next
  assume as: "chain_from 0 n h a \<and> chain_valid n h a \<and>
    (\<forall>r m. ns r = (m, None) \<longrightarrow> entries m \<noteq> []) \<and>
    (\<exists>h'. getPreviousKey ns h a = Some (Ret (h', None, None)))"
  then have ch: "chain_from 0 n h a" and cv: "chain_valid n h a"
    and nes: "\<forall>r m. ns r = (m, None) \<longrightarrow> entries m \<noteq> []" by simp_all
  from as obtain h' where g: "getPreviousKey ns h a = Some (Ret (h', None, None))" by blast
  from clone_levels [OF ch] obtain h1 a2 where
    cl: "clone h a = Some (Ret (h1, a2))" and
    lv1: "levels n h1 a2 = levels n h a" and
    ch1: "chain_from (length h) n h1 a2"
    by blast
  from retreat_refines [OF ch1, of ns] obtain h2 e where
    r2: "retreat ns h1 a2 = Some (Ret (h2, e))" and
    rl: "retreat_levels ns (levels n h1 a2) = Ret (levels n h2 a2, e)" and
    len: "length h2 = length h1"
    by blast
  from ch1 obtain c1 where "cell h1 a2 = Some c1" by (cases n) (auto split: option.splits)
  then have "a2 < length h2" using len by (simp add: cell_lengthD)
  then have c2: "cell h2 a2 = Some (h2 ! a2)" by (simp add: cell_def)
  from g cl r2 c2 have e: "e = None" and nv: "\<not> Valid (h2 ! a2)"
    by (auto simp: getPreviousKey_def deref_def split: option.splits if_splits result.splits)
  from ch obtain c0 where "cell h a = Some c0" by (cases n) (auto split: option.splits)
  from levels_nonempty [OF ch this] have lne: "levels n h a \<noteq> []" by auto
  have "retreat_levels ns (levels n h a) = Ret (levels n h2 a2, None)"
    using rl lv1 e by simp
  from retreat_levels_valid [OF lne chain_valid_levels [OF cv] nes this]
  obtain m i rest where
    l2: "levels n h2 a2 = (m, i) # rest" and
    iff: "(0 \<le> i \<and> i < count m) \<longleftrightarrow> \<not> (\<forall>(m, i) \<in> set (levels n h a). i = 0)"
    by blast
  from levels_Cons_hd [OF l2] c2 have "m = nd (h2 ! a2)" "i = idx (h2 ! a2)" by auto
  with nv have "\<not> (0 \<le> i \<and> i < count m)" by (simp add: Valid_def)
  with iff have "\<forall>(m, i) \<in> set (levels n h a). i = 0" by blast
  from levels_zero_at_tree_start [OF ch this] show "at_tree_start n h a" .
qed

text \<open>
  On the two-level tree: the second leaf has the previous key \<open>''b''\<close>, which is the key of the
  only entry of the first leaf; the first leaf is the start of the tree and has none.
\<close>

lemma getPreviousKey_first_entry_example:
  "retreat store heap_last 0 = Some (Ret (heap_parent_retreated, None)) \<and>
   (\<exists>h'. getPreviousKey store heap_last 1 = Some (Ret (h', Some ''b'', None))) \<and>
   at_tree_start 2 heap_first 1 \<and>
   (\<exists>h'. getPreviousKey store heap_first 1 = Some (Ret (h', None, None)))"
proof -
  have a: "cell heap_last 1 = Some (heap_last ! 1) \<and> idx (heap_last ! 1) = 0 \<and>
      parent (heap_last ! 1) = Some 0 \<and> chain_from 0 2 heap_last 0 \<and>
      retreat store heap_last 0 = Some (Ret (heap_parent_retreated, None)) \<and>
      cell heap_parent_retreated 0 = Some (heap_parent_retreated ! 0) \<and>
      Valid (heap_parent_retreated ! 0) \<and>
      store (elems (snd (entries (nd (heap_parent_retreated ! 0)) ! nat (idx (heap_parent_retreated ! 0))))) =
        (leafA, None) \<and>
      entries leafA \<noteq> []"
    by code_simp
  have k: "fst (entries (nd (heap_parent_retreated ! 0)) ! nat (idx (heap_parent_retreated ! 0))) = ''b''"
    by code_simp
  have b: "at_tree_start 2 heap_first 1" by code_simp
  have s: "\<forall>r m. store r = (m, None) \<longrightarrow> entries m \<noteq> []"
    by (simp add: store_def leafA_def leafB_def leaf2_def)
  have cv: "chain_from 0 2 heap_first 1 \<and> chain_valid 2 heap_first 1" by code_simp
  note t1 = getPreviousKey_first_entry [of heap_last 1 2 store]
  note t2 = getPreviousKey_first_entry [of heap_first 1 2 store]
  from t1 a k have 1: "\<exists>h'. getPreviousKey store heap_last 1 = Some (Ret (h', Some ''b'', None))"
    by metis
  from t2 b have 2: "\<exists>h'. getPreviousKey store heap_first 1 = Some (Ret (h', None, None))"
    by blast
  from t2 cv s 2 have "at_tree_start 2 heap_first 1" by blast
  with a 1 2 show ?thesis by blast
qed


section \<open>Properties of the JSON cursor\<close>

lemma JsonCursor_Valid_scanner [simp]:
  "JsonCursor_Valid h (j\<lparr>jsonScanner := s\<rparr>) = JsonCursor_Valid h j"
  by (simp add: JsonCursor_Valid_def)

lemma AdvanceToNextLocation_loop_crossed:
  assumes "AdvanceToNextLocation_loop d c h j = Some r"
  shows "c \<longrightarrow> (\<forall>h' j' cr e. r = Ret (h', j', cr, e) \<longrightarrow> cr)"
  using assms
proof (rule AdvanceToNextLocation_loop.raw_induct [rotated 1,
    where P = "\<lambda>d c h j r. c \<longrightarrow> (\<forall>h' j' cr e. r = Ret (h', j', cr, e) \<longrightarrow> cr)"], goal_cases)
  case (1 f d c h j r)
  show ?case
    using 1(2) 1(1)
    by (force split: prod.splits if_splits option.splits result.splits bind_splits)
qed

lemma AdvanceToNextLocation_loop_True:
  "AdvanceToNextLocation_loop d True h j = Some (Ret (h', j', cr, e)) \<Longrightarrow> cr"
  using AdvanceToNextLocation_loop_crossed [of d True h j] by blast







lemma AdvanceToLocation_post:
  assumes "AdvanceToLocation d h j path = Some r"
  shows "\<forall>h' j'. r = Ret (h', j', None) \<longrightarrow>
           \<not> compareJsonLocations d (currentPath (jsonScanner j')) path < 0"
  using assms
proof (rule AdvanceToLocation.raw_induct [rotated 1,
    where P = "\<lambda>d h j path r. \<forall>h' j'. r = Ret (h', j', None) \<longrightarrow>
           \<not> compareJsonLocations d (currentPath (jsonScanner j')) path < 0"],
    goal_cases)
  case (1 f d h j path r)
  show ?case
    using 1(2) 1(1)
    by (force split: prod.splits if_splits option.splits result.splits bind_splits)
qed

text \<open>
  C6.  When the scanner is not at the start of a value, \<^verbatim>\<open>NextValue\<close> returns the error
  "JSON cursor in unexpected state" and no bytes, and touches neither the store nor the cursor.
\<close>

theorem NextValue_not_at_start:
  "\<not> atStartOfValue d (jsonScanner j) \<Longrightarrow>
   NextValue d h j = Some (Ret (h, j, [], Some UnexpectedState))"
  by (simp add: NextValue_def)

text \<open>C6 for the byte-wise scanner at the end of its buffer.\<close>

theorem NextValue_not_at_start_witness:
  "\<not> atStartOfValue byte_deps (jsonScanner cursor_cz_end) \<and>
   NextValue byte_deps heap_last cursor_cz_end =
     Some (Ret (heap_last, cursor_cz_end, [], Some UnexpectedState))"
proof -
  have a: "\<not> atStartOfValue byte_deps (jsonScanner cursor_cz_end)"
    by (simp add: byte_deps_def cursor_cz_end_def whole_def)
  from a NextValue_not_at_start [OF a] show ?thesis by simp
qed

text \<open>
  C5.  When the scanner reports the end of its buffer, \<^verbatim>\<open>AdvanceToNextLocation\<close> advances
  the tree cursor.  If the advanced cursor is no longer valid the call returns
  \<^verbatim>\<open>(true, io.EOF)\<close>; if it is valid, scanning goes on over the value of the new leaf with the
  path carried over; and whatever the call returns, \<^verbatim>\<open>crossedBoundary\<close> is \<^verbatim>\<open>true\<close> and the tree
  cursor was advanced.
\<close>

theorem AdvanceToNextLocation_at_chunk_end:
  assumes "scanToNextLocation d (jsonScanner j) = (s, Some EOF)"
  shows "(\<forall>h1. advance (fetchChild d) h (cur j) = Some (Ret (h1, None)) \<longrightarrow>
            JsonCursor_Valid h1 j = Ret False \<longrightarrow>
            AdvanceToNextLocation d h j = Some (Ret (h1, j\<lparr>jsonScanner := s\<rparr>, True, Some EOF))) \<and>
         (\<forall>h1 c v. advance (fetchChild d) h (cur j) = Some (Ret (h1, None)) \<longrightarrow>
            deref h1 (Some (cur j)) = Ret c \<longrightarrow> Valid c \<longrightarrow> currentValue c = Ret v \<longrightarrow>
            AdvanceToNextLocation d h j =
              AdvanceToNextLocation_loop d True h1
                (j\<lparr>jsonScanner := ScanJsonFromMiddle v (currentPath s)\<rparr>)) \<and>
         (\<forall>h' j' crossedBoundary err.
            AdvanceToNextLocation d h j = Some (Ret (h', j', crossedBoundary, err)) \<longrightarrow>
            crossedBoundary \<and> (\<exists>h1 e1. advance (fetchChild d) h (cur j) = Some (Ret (h1, e1))))"
proof (intro conjI allI impI)
  fix h1
  assume "advance (fetchChild d) h (cur j) = Some (Ret (h1, None))"
    and "JsonCursor_Valid h1 j = Ret False"
  then show "AdvanceToNextLocation d h j = Some (Ret (h1, j\<lparr>jsonScanner := s\<rparr>, True, Some EOF))"
    using assms unfolding AdvanceToNextLocation_def
    by (subst AdvanceToNextLocation_loop.simps)
      (auto simp: JsonCursor_Valid_def split: result.splits)
next
  fix h1 c v
  assume "advance (fetchChild d) h (cur j) = Some (Ret (h1, None))"
    and "deref h1 (Some (cur j)) = Ret c" and "Valid c" and "currentValue c = Ret v"
  then show "AdvanceToNextLocation d h j =
      AdvanceToNextLocation_loop d True h1 (j\<lparr>jsonScanner := ScanJsonFromMiddle v (currentPath s)\<rparr>)"
    using assms unfolding AdvanceToNextLocation_def
    by (subst AdvanceToNextLocation_loop.simps) simp
next
  fix h' j' crossedBoundary err
  assume r: "AdvanceToNextLocation d h j = Some (Ret (h', j', crossedBoundary, err))"
  have "AdvanceToNextLocation d h j =
      advance (fetchChild d) h (cur j) \<bind>
       (\<lambda>r. case r of
            Panic x \<Rightarrow> Some (Panic x)
          | Ret (h1, err1) \<Rightarrow>
              if err1 \<noteq> None then Some (Ret (h1, j\<lparr>jsonScanner := s\<rparr>, True, err1))
              else
                (case deref h1 (Some (cur j)) of
                   Panic x \<Rightarrow> Some (Panic x)
                 | Ret c \<Rightarrow>
                     if \<not> Valid c then Some (Ret (h1, j\<lparr>jsonScanner := s\<rparr>, True, Some EOF))
                     else
                       (case currentValue c of
                          Panic x \<Rightarrow> Some (Panic x)
                        | Ret v \<Rightarrow>
                            AdvanceToNextLocation_loop d True h1
                              (j\<lparr>jsonScanner := ScanJsonFromMiddle v (currentPath s)\<rparr>))))"
    using assms unfolding AdvanceToNextLocation_def
    by (subst AdvanceToNextLocation_loop.simps) simp
  with r obtain y where y: "advance (fetchChild d) h (cur j) = Some (Ret y)" and
    k: "(case y of (h1, err1) \<Rightarrow>
              if err1 \<noteq> None then Some (Ret (h1, j\<lparr>jsonScanner := s\<rparr>, True, err1))
              else
                (case deref h1 (Some (cur j)) of
                   Panic x \<Rightarrow> Some (Panic x)
                 | Ret c \<Rightarrow>
                     if \<not> Valid c then Some (Ret (h1, j\<lparr>jsonScanner := s\<rparr>, True, Some EOF))
                     else
                       (case currentValue c of
                          Panic x \<Rightarrow> Some (Panic x)
                        | Ret v \<Rightarrow>
                            AdvanceToNextLocation_loop d True h1
                              (j\<lparr>jsonScanner := ScanJsonFromMiddle v (currentPath s)\<rparr>)))) =
        Some (Ret (h', j', crossedBoundary, err))"
    by (auto split: bind_splits result.splits)
  show "crossedBoundary"
    using k
    by (auto split: prod.splits result.splits if_splits dest: AdvanceToNextLocation_loop_True)
  show "\<exists>h1 e1. advance (fetchChild d) h (cur j) = Some (Ret (h1, e1))"
    using y by (cases y) simp
qed

text \<open>
  C5 at the end of the last chunk, where the tree is exhausted and \<^verbatim>\<open>io.EOF\<close> comes back, and
  at the end of the first chunk, where scanning goes on in the second.
\<close>

theorem AdvanceToNextLocation_at_chunk_end_witness:
  "scanToNextLocation byte_deps (jsonScanner cursor_cz_end) = (jsonScanner cursor_cz_end, Some EOF) \<and>
   advance (fetchChild byte_deps) heap_last (cur cursor_cz_end) = Some (Ret (heap_end, None)) \<and>
   JsonCursor_Valid heap_end cursor_cz_end = Ret False \<and>
   AdvanceToNextLocation byte_deps heap_last cursor_cz_end =
     Some (Ret (heap_end, cursor_cz_end, True, Some EOF)) \<and>
   scanToNextLocation byte_deps (jsonScanner cursor_ab_end) = (jsonScanner cursor_ab_end, Some EOF) \<and>
   advance (fetchChild byte_deps) heap_first (cur cursor_ab_end) = Some (Ret (heap_last, None)) \<and>
   AdvanceToNextLocation byte_deps heap_first cursor_ab_end =
     AdvanceToNextLocation_loop byte_deps True heap_last cursor_cz_start \<and>
   AdvanceToNextLocation byte_deps heap_first cursor_ab_end =
     Some (Ret (heap_last, cursor_c, True, None))"
proof -
  have a: "scanToNextLocation byte_deps (jsonScanner cursor_cz_end) = (jsonScanner cursor_cz_end, Some EOF)"
    by code_simp
  have b: "advance (fetchChild byte_deps) heap_last (cur cursor_cz_end) = Some (Ret (heap_end, None))"
    by code_simp
  have c: "JsonCursor_Valid heap_end cursor_cz_end = Ret False"
    by code_simp
  have e: "cursor_cz_end\<lparr>jsonScanner := jsonScanner cursor_cz_end\<rparr> = cursor_cz_end"
    by simp
  note t1 = AdvanceToNextLocation_at_chunk_end [OF a, of heap_last]
  have 1: "AdvanceToNextLocation byte_deps heap_last cursor_cz_end =
      Some (Ret (heap_end, cursor_cz_end, True, Some EOF))"
    using t1 b c e by simp
  have a2: "scanToNextLocation byte_deps (jsonScanner cursor_ab_end) = (jsonScanner cursor_ab_end, Some EOF)"
    by code_simp
  have b2: "advance (fetchChild byte_deps) heap_first (cur cursor_ab_end) = Some (Ret (heap_last, None))"
    by code_simp
  have d2: "deref heap_last (Some (cur cursor_ab_end)) = Ret (heap_last ! 1)"
    by code_simp
  have v2: "Valid (heap_last ! 1)" by code_simp
  have cv2: "currentValue (heap_last ! 1) = Ret (whole ''cz'')" by code_simp
  have s2: "cursor_ab_end\<lparr>jsonScanner :=
      ScanJsonFromMiddle (whole ''cz'') (currentPath (jsonScanner cursor_ab_end))\<rparr> = cursor_cz_start"
    by code_simp
  have r2: "AdvanceToNextLocation byte_deps heap_first cursor_ab_end =
      Some (Ret (heap_last, cursor_c, True, None))"
    by code_simp
  note t2 = AdvanceToNextLocation_at_chunk_end [OF a2, of heap_first]
  note t2b = conjunct1 [OF conjunct2 [OF t2], rule_format, OF b2 d2 v2 cv2]
  have 2: "AdvanceToNextLocation byte_deps heap_first cursor_ab_end =
      AdvanceToNextLocation_loop byte_deps True heap_last cursor_cz_start"
    using t2b s2 by simp
  have 3: "True \<and> (\<exists>h1 e1. advance (fetchChild byte_deps) heap_first (cur cursor_ab_end) =
      Some (Ret (h1, e1)))"
    using conjunct2 [OF conjunct2 [OF t2], rule_format, OF r2] .
  from a b c 1 a2 b2 2 3 r2 show ?thesis by simp
qed

lemma next_chunks_length: "next_chunks ns m h a = Some (vs, h') \<Longrightarrow> length vs = m"
proof (induction m arbitrary: h vs)
  case 0
  then show ?case by simp
next
  case (Suc m)
  from Suc.prems obtain h1 v vs' where
    "next_chunks ns m h1 a = Some (vs', h')" "vs = v # vs'"
    by (auto split: option.splits result.splits if_splits)
  with Suc.IH show ?case by auto
qed



















text \<open>A slice expression reaches into the spare capacity of its buffer.\<close>

lemma slice_range_reaches_spare:
  "slice_range \<lparr>elems = ''ab'', spare = ''c''\<rparr> 0 3 = Ret ''abc''"
  by code_simp


text \<open>
  C3.  \<^verbatim>\<open>AdvanceToLocation\<close> returns at once when the current path is not less than the
  target; while it is less, a successful scanner step is followed by another round; at the end
  of the buffer the parent cursor is sought to the key of the target, the child it then
  references is fetched into the cursor, the previous key is computed and scanning resumes over
  the current value with a scanner built from the middle with that key; and when the call
  returns without an error the current path is not less than the target.
\<close>

theorem AdvanceToLocation_reaches_target:
  "(\<forall>h' j'. AdvanceToLocation d h j path = Some (Ret (h', j', None)) \<longrightarrow>
      \<not> compareJsonLocations d (currentPath (jsonScanner j')) path < 0) \<and>
   (\<not> compareJsonLocations d (currentPath (jsonScanner j)) path < 0 \<longrightarrow>
      AdvanceToLocation d h j path = Some (Ret (h, j, None))) \<and>
   (\<forall>s. compareJsonLocations d (currentPath (jsonScanner j)) path < 0 \<longrightarrow>
      scanToNextLocation d (jsonScanner j) = (s, None) \<longrightarrow>
      AdvanceToLocation d h j path = AdvanceToLocation d h (j\<lparr>jsonScanner := s\<rparr>) path) \<and>
   (\<forall>s c h1 c1 pc r n h3 previousKey c3 v.
      compareJsonLocations d (currentPath (jsonScanner j)) path < 0 \<longrightarrow>
      scanToNextLocation d (jsonScanner j) = (s, Some EOF) \<longrightarrow>
      deref h (Some (cur j)) = Ret c \<longrightarrow>
      Seek d h (parent c) (key d path) = Ret (h1, None) \<longrightarrow>
      deref h1 (Some (cur j)) = Ret c1 \<longrightarrow>
      deref h1 (parent c1) = Ret pc \<longrightarrow>
      currentRef pc = Ret r \<longrightarrow>
      fetchChild d r = (n, None) \<longrightarrow>
      getPreviousKey (fetchChild d) (h1[cur j := c1\<lparr>nd := n\<rparr>]) (cur j) =
        Some (Ret (h3, previousKey, None)) \<longrightarrow>
      deref h3 (Some (cur j)) = Ret c3 \<longrightarrow>
      currentValue c3 = Ret v \<longrightarrow>
      AdvanceToLocation d h j path =
        AdvanceToLocation d h3 (j\<lparr>jsonScanner := ScanJsonFromMiddleWithKey d v previousKey\<rparr>) path)"
proof (intro conjI allI impI)
  fix h' j'
  assume "AdvanceToLocation d h j path = Some (Ret (h', j', None))"
  from AdvanceToLocation_post [OF this]
  show "\<not> compareJsonLocations d (currentPath (jsonScanner j')) path < 0" by simp
next
  assume "\<not> compareJsonLocations d (currentPath (jsonScanner j)) path < 0"
  then show "AdvanceToLocation d h j path = Some (Ret (h, j, None))"
    by (subst AdvanceToLocation.simps) simp
next
  fix s
  assume "compareJsonLocations d (currentPath (jsonScanner j)) path < 0"
    and "scanToNextLocation d (jsonScanner j) = (s, None)"
  then show "AdvanceToLocation d h j path = AdvanceToLocation d h (j\<lparr>jsonScanner := s\<rparr>) path"
    by (subst AdvanceToLocation.simps) simp
next
  fix s c h1 c1 pc r n h3 previousKey c3 v
  assume lt: "compareJsonLocations d (currentPath (jsonScanner j)) path < 0"
    and sc: "scanToNextLocation d (jsonScanner j) = (s, Some EOF)"
    and "deref h (Some (cur j)) = Ret c"
    and "Seek d h (parent c) (key d path) = Ret (h1, None)"
    and "deref h1 (Some (cur j)) = Ret c1"
    and "deref h1 (parent c1) = Ret pc"
    and "currentRef pc = Ret r"
    and "fetchChild d r = (n, None)"
    and "getPreviousKey (fetchChild d) (h1[cur j := c1\<lparr>nd := n\<rparr>]) (cur j) =
        Some (Ret (h3, previousKey, None))"
    and "deref h3 (Some (cur j)) = Ret c3"
    and "currentValue c3 = Ret v"
  then have "reloadChunk d h (j\<lparr>jsonScanner := s\<rparr>) path =
      Some (Ret (h3, j\<lparr>jsonScanner := ScanJsonFromMiddleWithKey d v previousKey\<rparr>, None))"
    by (simp add: reloadChunk_def)
  with lt sc show "AdvanceToLocation d h j path =
      AdvanceToLocation d h3 (j\<lparr>jsonScanner := ScanJsonFromMiddleWithKey d v previousKey\<rparr>) path"
    by (subst AdvanceToLocation.simps) simp
qed

text \<open>
  C3 for the byte-wise scanner: from the first chunk to the target \<open>z\<close> in the second, the
  immediate return at the target, a round after a scanner step and the round taken at the end
  of the first chunk.
\<close>

theorem AdvanceToLocation_reaches_target_witness:
  "AdvanceToLocation seek_deps heap_first cursor_ab (CHR ''z'') =
     Some (Ret (heap_reloaded, cursor_cz_end, None)) \<and>
   \<not> compareJsonLocations seek_deps (currentPath (jsonScanner cursor_cz_end)) (CHR ''z'') < 0 \<and>
   AdvanceToLocation seek_deps heap_last cursor_cz_end (CHR ''z'') =
     Some (Ret (heap_last, cursor_cz_end, None)) \<and>
   AdvanceToLocation seek_deps heap_first cursor_ab (CHR ''z'') =
     AdvanceToLocation seek_deps heap_first cursor_a (CHR ''z'') \<and>
   AdvanceToLocation seek_deps heap_first cursor_ab_end (CHR ''z'') =
     AdvanceToLocation seek_deps heap_reloaded
       (cursor_ab_end\<lparr>jsonScanner := ScanJsonFromMiddleWithKey seek_deps (whole ''cz'') (Some ''b'')\<rparr>)
       (CHR ''z'')"
proof -
  have a: "AdvanceToLocation seek_deps heap_first cursor_ab (CHR ''z'') =
      Some (Ret (heap_reloaded, cursor_cz_end, None))"
    by code_simp
  have b: "\<not> compareJsonLocations seek_deps (currentPath (jsonScanner cursor_cz_end)) (CHR ''z'') < 0"
    using AdvanceToLocation_reaches_target [of seek_deps heap_first cursor_ab "CHR ''z''"] a
    by blast
  have c: "AdvanceToLocation seek_deps heap_last cursor_cz_end (CHR ''z'') =
      Some (Ret (heap_last, cursor_cz_end, None))"
    using AdvanceToLocation_reaches_target [of seek_deps heap_last cursor_cz_end "CHR ''z''"] b
    by blast
  have g1: "compareJsonLocations seek_deps (currentPath (jsonScanner cursor_ab)) (CHR ''z'') < 0"
    by code_simp
  have g2: "scanToNextLocation seek_deps (jsonScanner cursor_ab) = (jsonScanner cursor_a, None)"
    by code_simp
  have g3: "cursor_ab\<lparr>jsonScanner := jsonScanner cursor_a\<rparr> = cursor_a"
    by code_simp
  note s = AdvanceToLocation_reaches_target [of seek_deps heap_first cursor_ab "CHR ''z''"]
  note r3 = conjunct1 [OF conjunct2 [OF conjunct2 [OF s]], rule_format, OF g1 g2]
  have d: "AdvanceToLocation seek_deps heap_first cursor_ab (CHR ''z'') =
      AdvanceToLocation seek_deps heap_first cursor_a (CHR ''z'')"
    using r3 g3 by simp
  have f1: "compareJsonLocations seek_deps (currentPath (jsonScanner cursor_ab_end)) (CHR ''z'') < 0"
    by code_simp
  have f2: "scanToNextLocation seek_deps (jsonScanner cursor_ab_end) =
      (jsonScanner cursor_ab_end, Some EOF)"
    by code_simp
  have f3: "deref heap_first (Some (cur cursor_ab_end)) = Ret (heap_first ! 1)"
    by code_simp
  have f4: "Seek seek_deps heap_first (parent (heap_first ! 1)) (key seek_deps (CHR ''z'')) =
      Ret (heap_seeked, None)"
    by code_simp
  have f5: "deref heap_seeked (Some (cur cursor_ab_end)) = Ret (heap_seeked ! 1)"
    by code_simp
  have f6: "deref heap_seeked (parent (heap_seeked ! 1)) = Ret (heap_seeked ! 0)"
    by code_simp
  have f7: "currentRef (heap_seeked ! 0) = Ret ''B''"
    by code_simp
  have f8: "fetchChild seek_deps ''B'' = (leafB, None)"
    by code_simp
  have f9: "getPreviousKey (fetchChild seek_deps)
      (heap_seeked[cur cursor_ab_end := (heap_seeked ! 1)\<lparr>nd := leafB\<rparr>]) (cur cursor_ab_end) =
      Some (Ret (heap_reloaded, Some ''b'', None))"
    by code_simp
  have f10: "deref heap_reloaded (Some (cur cursor_ab_end)) = Ret (heap_reloaded ! 1)"
    by code_simp
  have f11: "currentValue (heap_reloaded ! 1) = Ret (whole ''cz'')"
    by code_simp
  note t = AdvanceToLocation_reaches_target [of seek_deps heap_first cursor_ab_end "CHR ''z''"]
  note r4 = conjunct2 [OF conjunct2 [OF conjunct2 [OF t]], rule_format]
  from r4 [OF f1 f2 f3 f4 f5 f6 f7 f8 f9 f10 f11] a b c d show ?thesis by simp
qed

end
